theory Spec2Isabelle
  imports Main "HOL-Library.Word"
begin

unbundle bit_operations_syntax

section \<open>Bytes, strings and errors\<close>

text \<open>
  A Go \<open>byte\<close> is an unsigned 8-bit integer: \<open>+\<close> wraps modulo 256, \<open>^\<close> is \<open>XOR\<close>.
  A Go \<open>string\<close> is a sequence of bytes; \<open>[]byte(s)\<close> and \<open>string(b)\<close> convert
  without changing a byte. Isabelle's \<open>char\<close> is an 8-bit character, so a Go string is
  a \<open>string\<close> here and the two conversions are maps over the characters.
\<close>

type_synonym byte = "8 word"

definition byte_of_char :: "char \<Rightarrow> byte" where
  "byte_of_char c = of_nat (of_char c)"

definition char_of_byte :: "byte \<Rightarrow> char" where
  "char_of_byte b = char_of (unat b)"

definition bytes_of_string :: "string \<Rightarrow> byte list" where
  "bytes_of_string str = map byte_of_char str"

definition string_of_bytes :: "byte list \<Rightarrow> string" where
  "string_of_bytes bs = map char_of_byte bs"

text \<open>
  A Go panic aborts the call; it is the left summand of every result type below.
  A Go \<open>error\<close> is an ordinary returned value: \<open>io.EOF\<close> and \<open>io.ErrUnexpectedEOF\<close>
  come from \<open>io.ReadFull\<close>, \<open>Errorf msg\<close> is the value of \<open>fmt.Errorf(msg)\<close>,
  \<open>IOError\<close> is whatever a sink or the random source reports, and \<open>Wrapped msg e\<close>
  is what \<open>errs.First(msg, ...)\<close> makes of the first error \<open>e\<close> it finds.
\<close>

datatype panic = Panic string

datatype error =
    EOF
  | ErrUnexpectedEOF
  | Errorf string
  | IOError string
  | Wrapped string error

definition pbind :: "panic + 'a \<Rightarrow> ('a \<Rightarrow> panic + 'b) \<Rightarrow> panic + 'b" where
  "pbind m f = (case m of Inl p \<Rightarrow> Inl p | Inr x \<Rightarrow> f x)"

section \<open>The permutation engine\<close>

text \<open>
  Modelled from the spec: the permutation state (section 3). The file that declares
  \<open>state\<close>, \<open>initialize\<close>, \<open>absorb\<close>, \<open>absorbMany\<close>, \<open>absorbStop\<close>, \<open>shuffle\<close>,
  \<open>drip\<close>, \<open>dripMany\<close> and \<open>Sum\<close> is absent from the sources; the stream and envelope
  code calls them, and they follow sections 3, 4.1 and 4.2 of the specification here. The
  fields \<open>s, i, j, k, z, a, w\<close> of the state are \<open>st_s, st_i, ...\<close>. The array \<open>s\<close>
  has exactly 256 entries and is indexed by bytes only, so it is a total function from bytes
  to bytes.
\<close>

record state =
  st_s :: "byte \<Rightarrow> byte"
  st_i :: byte
  st_j :: byte
  st_k :: byte
  st_z :: byte
  st_a :: byte
  st_w :: byte

text \<open>The zero value that Go's \<open>new(state)\<close> allocates.\<close>

definition new_state :: state where
  "new_state = \<lparr>st_s = (\<lambda>n. 0), st_i = 0, st_j = 0, st_k = 0, st_z = 0, st_a = 0, st_w = 0\<rparr>"

text \<open>Modelled from the spec: \<open>initialize\<close> (section 4.1), absent from the sources:
  set \<open>s[n] = n\<close>, zero \<open>i, j, k, z, a\<close>, set \<open>w = 1\<close>.\<close>

definition initialize :: "state \<Rightarrow> state" where
  "initialize st =
     st\<lparr>st_s := (\<lambda>n. n), st_i := 0, st_j := 0, st_k := 0, st_z := 0, st_a := 0, st_w := 1\<rparr>"

text \<open>Modelled from the spec: \<open>swap\<close> (section 4.1), absent from the sources:
  exchange \<open>s[x]\<close> and \<open>s[y]\<close>.\<close>

definition swap :: "state \<Rightarrow> byte \<Rightarrow> byte \<Rightarrow> state" where
  "swap st x y = st\<lparr>st_s := (st_s st)(x := st_s st y, y := st_s st x)\<rparr>"

text \<open>Modelled from the spec: \<open>update\<close> (section 4.1), absent from the sources.\<close>

definition update :: "state \<Rightarrow> state" where
  "update st =
     (let i = st_i st + st_w st;
          j = st_k st + st_s st (st_j st + st_s st i);
          k = i + st_k st + st_s st j
      in swap (st\<lparr>st_i := i, st_j := j, st_k := k\<rparr>) i j)"

text \<open>Modelled from the spec: \<open>whip\<close> (section 4.1), absent from the sources:
  \<open>r\<close> updates, then \<open>w\<close> grows by 2.\<close>

definition whip :: "state \<Rightarrow> nat \<Rightarrow> state" where
  "whip st r = (let st' = (update ^^ r) st in st'\<lparr>st_w := st_w st' + 2\<rparr>)"

text \<open>Modelled from the spec: \<open>crush\<close> (section 4.1), absent from the sources.\<close>

definition crush :: "state \<Rightarrow> state" where
  "crush st =
     fold (\<lambda>v st. if st_s st (255 - v) < st_s st v then swap st v (255 - v) else st)
       (map of_nat [0..<128]) st"

text \<open>Modelled from the spec: \<open>shuffle\<close> (section 4.1), absent from the sources.\<close>

definition shuffle :: "state \<Rightarrow> state" where
  "shuffle st =
     (let st = whip st 512;
          st = crush st;
          st = whip st 512;
          st = crush st;
          st = whip st 512
      in st\<lparr>st_a := 0\<rparr>)"

text \<open>Modelled from the spec: \<open>absorbNibble\<close> (section 4.1), absent from the sources.\<close>

definition absorbNibble :: "state \<Rightarrow> byte \<Rightarrow> state" where
  "absorbNibble st x =
     (let st = (if st_a st = 128 then shuffle st else st);
          st = swap st (st_a st) (128 + x)
      in st\<lparr>st_a := st_a st + 1\<rparr>)"

text \<open>Modelled from the spec: \<open>absorbByte\<close> (section 4.1), which the sources call
  \<open>absorb\<close>; its body is absent from them.\<close>

definition absorb :: "state \<Rightarrow> byte \<Rightarrow> state" where
  "absorb st b = absorbNibble (absorbNibble st (b AND 15)) (drop_bit 4 b)"

text \<open>Modelled from the spec: \<open>absorbMany\<close> (section 4.1), absent from the sources.\<close>

definition absorbMany :: "state \<Rightarrow> byte list \<Rightarrow> state" where
  "absorbMany st bs = fold (\<lambda>b st. absorb st b) bs st"

text \<open>Modelled from the spec: \<open>absorbStop\<close> (section 4.1), absent from the sources.\<close>

definition absorbStop :: "state \<Rightarrow> state" where
  "absorbStop st =
     (let st = (if st_a st = 128 then shuffle st else st)
      in st\<lparr>st_a := st_a st + 1\<rparr>)"

text \<open>Modelled from the spec: \<open>drip\<close> (section 4.1), absent from the sources. It returns the
  byte and the state it leaves.\<close>

definition drip :: "state \<Rightarrow> byte \<times> state" where
  "drip st =
     (let st = (if 0 < st_a st then shuffle st else st);
          st = update st;
          z = st_s st (st_j st + st_s st (st_i st + st_s st (st_z st + st_k st)))
      in (z, st\<lparr>st_z := z\<rparr>))"

text \<open>Modelled from the spec: \<open>dripMany\<close> (section 4.1), absent from the sources: fill a
  buffer byte by byte with \<open>drip\<close>. The buffer's old contents are never read, so the model
  takes its length and returns the bytes.\<close>

fun dripMany :: "state \<Rightarrow> nat \<Rightarrow> byte list \<times> state" where
  "dripMany st 0 = ([], st)"
| "dripMany st (Suc n) =
     (let r = drip st; rest = dripMany (snd r) n in (fst r # fst rest, snd rest))"

text \<open>Modelled from the spec: \<open>squeezeBytes\<close> (section 4.1), absent from the sources.\<close>

definition squeezeBytes :: "state \<Rightarrow> nat \<Rightarrow> byte list \<times> state" where
  "squeezeBytes st n = dripMany (if 0 < st_a st then shuffle st else st) n"

text \<open>Modelled from the spec: \<open>Sum\<close> (section 4.2), absent from the sources. The request
  size \<open>bits / 8\<close> is absorbed as one byte, truncated.\<close>

definition Sum :: "nat \<Rightarrow> byte list \<Rightarrow> byte list" where
  "Sum bits msg =
     (let n = bits div 8;
          st = initialize new_state;
          st = absorbMany st msg;
          st = absorbStop st;
          st = absorb st (of_nat n)
      in fst (squeezeBytes st n))"

section \<open>The stream interface\<close>

text \<open>
  \<open>XORKeyStream\<close>: the panic on a short destination, one shuffle when \<open>a > 0\<close>, then the
  loop \<open>dst[idx] = v ^ drip(s)\<close> over the bytes of \<open>src\<close>. The loop is \<open>xorLoop\<close>, with
  \<open>idx\<close> the index it has reached. The result is the state and the contents of \<open>dst\<close>.
\<close>

fun xorLoop :: "state \<Rightarrow> byte list \<Rightarrow> nat \<Rightarrow> byte list \<Rightarrow> state \<times> byte list" where
  "xorLoop st dst idx [] = (st, dst)"
| "xorLoop st dst idx (v # vs) =
     (let r = drip st in xorLoop (snd r) (dst[idx := v XOR fst r]) (Suc idx) vs)"

definition XORKeyStream :: "state \<Rightarrow> byte list \<Rightarrow> byte list \<Rightarrow> panic + (state \<times> byte list)" where
  "XORKeyStream st dst src =
     (if length dst < length src then Inl (Panic ''Bad args to XORKeyStream!'')
      else Inr (xorLoop (if 0 < st_a st then shuffle st else st) dst 0 src))"

section \<open>Key schedule of the stream constructor\<close>

text \<open>
  \<open>newStream\<close>. The loop \<open>for idx := 0; idx < iterations; idx++\<close> is \<open>keyLoop\<close>;
  \<open>iterations\<close> is a Go \<open>int\<close> and may be negative, in which case the loop body never
  runs. \<open>dripMany(crypto, keyBytes)\<close> overwrites the 128-byte buffer \<open>keyBytes\<close>.
\<close>

function keyLoop :: "int \<Rightarrow> int \<Rightarrow> state \<Rightarrow> byte list \<Rightarrow> state \<times> byte list" where
  "keyLoop idx iterations crypto keyBytes =
     (if idx < iterations then
        (let crypto = initialize crypto;
             crypto = absorbMany crypto keyBytes;
             crypto = absorbStop crypto;
             crypto = absorb crypto 128;
             r = dripMany crypto (length keyBytes)
         in keyLoop (idx + 1) iterations (snd r) (fst r))
      else (crypto, keyBytes))"
  by pat_completeness auto
termination
  by (relation "measure (\<lambda>(idx, iterations, crypto, keyBytes). nat (iterations - idx))") auto

declare keyLoop.simps [simp del]

definition newStream :: "string \<Rightarrow> byte list \<Rightarrow> int \<Rightarrow> state" where
  "newStream password iv iterations =
     (let crypto = initialize new_state;
          crypto = (if 0 < length iv then absorbStop (absorbMany crypto iv) else crypto);
          crypto = absorbMany crypto (Sum 1024 (bytes_of_string password));
          r = dripMany crypto 128;
          loop = keyLoop 0 iterations (snd r) (fst r);
          crypto = initialize (fst loop);
          crypto = absorbMany crypto (snd loop)
      in crypto)"

section \<open>Readers, writers and the random source\<close>

text \<open>
  An \<open>io.Reader\<close> is modelled as the list of bytes it has still to deliver, as a file or a
  \<open>bytes.Reader\<close> does. \<open>io.ReadFull(src, buf)\<close> with \<open>len(buf) = n\<close> returns the next
  \<open>n\<close> bytes, or \<open>io.EOF\<close> when there is none and \<open>io.ErrUnexpectedEOF\<close> when there are
  fewer than \<open>n\<close>; the source is consumed as far as it was read.
\<close>

definition io_ReadFull :: "byte list \<Rightarrow> nat \<Rightarrow> (error + byte list) \<times> byte list" where
  "io_ReadFull src n =
     (if n \<le> length src then (Inr (take n src), drop n src)
      else (Inl (if src = [] then EOF else ErrUnexpectedEOF), []))"

text \<open>
  \<open>cipher.StreamReader\<close> holds a pointer to the cipher state and the source; its \<open>Read\<close>
  reads from the source and passes what it got through \<open>XORKeyStream\<close> in place.
  \<open>io.ReadFull\<close> on it, for \<open>n > 0\<close>, thus decrypts the bytes that are there. The state
  is shared with the envelope code, so the model threads it: the result holds the state and
  the source after the call.
\<close>

definition StreamReader_ReadFull ::
  "state \<Rightarrow> byte list \<Rightarrow> nat \<Rightarrow> panic + (state \<times> byte list \<times> (error + byte list))" where
  "StreamReader_ReadFull S R n =
     (let chunk = take n R
      in pbind (XORKeyStream S chunk chunk) (\<lambda>(S, dec).
           Inr (S, drop n R,
                if length chunk < n then Inl (if chunk = [] then EOF else ErrUnexpectedEOF)
                else Inr dec)))"

text \<open>Reading a stream reader to its end, as \<open>ioutil.ReadAll\<close> does.\<close>

definition StreamReader_ReadAll :: "state \<Rightarrow> byte list \<Rightarrow> panic + (state \<times> byte list)" where
  "StreamReader_ReadAll S R = XORKeyStream S R R"

text \<open>
  An \<open>io.Writer\<close> is an interface: the model takes the sink's \<open>Write\<close> as a function from
  the sink's state and the bytes to the new state and the error, \<open>None\<close> for \<open>nil\<close>. By the
  contract of \<open>io.Writer\<close> a write without error has written all the bytes.
  \<open>cipher.StreamWriter.Write\<close> encrypts into a fresh buffer of the length of its argument
  and writes that buffer to the sink.
\<close>

type_synonym 'w writer = "'w \<Rightarrow> byte list \<Rightarrow> 'w \<times> error option"

definition StreamWriter_Write ::
  "'w writer \<Rightarrow> state \<Rightarrow> 'w \<Rightarrow> byte list \<Rightarrow> panic + (state \<times> 'w \<times> error option)" where
  "StreamWriter_Write wr S W src =
     pbind (XORKeyStream S (replicate (length src) 0) src) (\<lambda>(S, c).
       let (W, err) = wr W c in Inr (S, W, err))"

text \<open>
  \<open>errs.First(msg, e1, ..., en)\<close> belongs to another module: it is \<open>nil\<close> when every
  \<open>ei\<close> is \<open>nil\<close>, and otherwise the first error that is not, under the message.
\<close>

fun firstError :: "error option list \<Rightarrow> error option" where
  "firstError [] = None"
| "firstError (None # es) = firstError es"
| "firstError (Some e # es) = Some e"

definition errs_First :: "string \<Rightarrow> error option list \<Rightarrow> error option" where
  "errs_First msg es = map_option (Wrapped msg) (firstError es)"

section \<open>The envelope\<close>

text \<open>\<open>rehashKey\<close>: twenty rounds; \<open>dripMany(cipher, tmp)\<close> overwrites \<open>tmp\<close>.\<close>

definition rehashRound :: "byte list \<Rightarrow> state \<times> byte list \<Rightarrow> state \<times> byte list" where
  "rehashRound iv ct =
     (let r = dripMany (fst ct) (length (snd ct));
          tmp = fst r;
          cipher = absorbMany (snd r) iv;
          cipher = absorbStop cipher;
          cipher = absorbMany cipher tmp
      in (cipher, tmp))"

definition rehashKey :: "state \<Rightarrow> byte list \<Rightarrow> byte list \<Rightarrow> state \<times> byte list" where
  "rehashKey cipher iv tmp = (rehashRound iv ^^ 20) (cipher, tmp)"

text \<open>
  The two loops that throw keystream away, \<open>for skip := 0; skip < int(rbytes[3]); skip++\<close>
  in the reader and \<open>for lastbyte > 0\<close> in the writer, both call \<open>drip\<close> as many times as
  the byte says.
\<close>

fun discard :: "nat \<Rightarrow> state \<Rightarrow> state" where
  "discard 0 st = st"
| "discard (Suc n) st = discard n (snd (drip st))"

text \<open>
  A reader's result is \<open>(rdr, fn, err)\<close>: \<open>rdr\<close> is \<open>None\<close> for \<open>nil\<close> and otherwise the
  stream reader, that is the cipher state and the source behind it.
\<close>

type_synonym read_result = "(state \<times> byte list) option \<times> string \<times> error option"

definition readV1Header :: "byte list \<Rightarrow> string \<Rightarrow> panic + read_result" where
  "readV1Header src pw =
     (case io_ReadFull src 4 of
        (Inl err, src) \<Rightarrow> Inr (None, [], Some err)
      | (Inr iv, src) \<Rightarrow>
          let stream = newStream pw iv 5000
          in pbind (StreamReader_ReadFull stream src 9) (\<lambda>(stream, src, r).
               case r of
                 Inl err \<Rightarrow> Inr (Some (stream, src), [], Some err)
               | Inr encheader \<Rightarrow>
                   let check = Sum 32 (take 4 encheader)
                   in if check \<noteq> take 4 (drop 4 encheader)
                      then Inr (Some (stream, src), [], Some (Errorf ''Bad password or corrupted file!''))
                      else if 0 < encheader ! 8
                      then pbind (StreamReader_ReadFull stream src (unat (encheader ! 8)))
                             (\<lambda>(stream, src, r).
                                case r of
                                  Inl err \<Rightarrow> Inr (Some (stream, src), [], Some err)
                                | Inr decnBytes \<Rightarrow>
                                    Inr (Some (stream, src), string_of_bytes decnBytes, None))
                      else Inr (Some (stream, src), [], None)))"

definition readHeader :: "byte list \<Rightarrow> byte \<Rightarrow> string \<Rightarrow> panic + read_result" where
  "readHeader src firstByte pw =
     (case io_ReadFull src 3 of
        (Inl err, src) \<Rightarrow> Inr (None, [], Some err)
      | (Inr rest, src) \<Rightarrow>
          let iv = firstByte # rest;
              crypto = initialize new_state;
              tmp256 = Sum 2048 (bytes_of_string pw);
              crypto = absorbMany crypto tmp256;
              crypto = absorbStop crypto;
              crypto = absorb crypto 4
          in pbind (XORKeyStream crypto iv iv) (\<lambda>(crypto, iv).
               let crypto = fst (rehashKey crypto iv tmp256)
               in pbind (StreamReader_ReadFull crypto src 4) (\<lambda>(crypto, src, r).
                    case r of
                      Inl err \<Rightarrow> Inr (Some (crypto, src), [], Some err)
                    | Inr rbytes \<Rightarrow>
                        let crypto = discard (unat (rbytes ! 3)) crypto
                        in pbind (StreamReader_ReadFull crypto src 6) (\<lambda>(crypto, src, r).
                             case r of
                               Inl err \<Rightarrow> Inr (Some (crypto, src), [], Some err)
                             | Inr remaining \<Rightarrow>
                                 if remaining ! 0 \<noteq> 2 \<or> take 4 (drop 1 remaining) \<noteq> Sum 32 rbytes
                                 then Inr (Some (crypto, src), [], Some (Errorf ''Bad pw or corrupted file!''))
                                 else if 0 < remaining ! 5
                                 then pbind (StreamReader_ReadFull crypto src (unat (remaining ! 5)))
                                        (\<lambda>(crypto, src, r).
                                           case r of
                                             Inl err \<Rightarrow> Inr (Some (crypto, src), [], Some err)
                                           | Inr decnBytes \<Rightarrow>
                                               Inr (Some (crypto, src), string_of_bytes decnBytes, None))
                                 else Inr (Some (crypto, src), [], None)))))"

definition WrapReader :: "byte list \<Rightarrow> string \<Rightarrow> panic + read_result" where
  "WrapReader src pw =
     (case io_ReadFull src 1 of
        (Inl err, src) \<Rightarrow> Inr (None, [], Some err)
      | (Inr header, src) \<Rightarrow>
          if header ! 0 = 1 then readV1Header src pw
          else readHeader src (header ! 0) pw)"

text \<open>
  \<open>WrapWriter\<close>. The two calls of \<open>rand.Read\<close> on 4-byte buffers are the arguments
  \<open>rnd1\<close> and \<open>rnd2\<close>: an error, or the bytes the buffer was filled with. The result is
  the sink after the call, the writer (\<open>None\<close> for \<open>nil\<close>, otherwise the cipher state the
  stream writer shares) and the error.
\<close>

type_synonym 'w write_result = "'w \<times> state option \<times> error option"

definition WrapWriter ::
  "'w writer \<Rightarrow> 'w \<Rightarrow> string \<Rightarrow> string \<Rightarrow> error + byte list \<Rightarrow> error + byte list
     \<Rightarrow> panic + 'w write_result" where
  "WrapWriter wr sink pw origfn rnd1 rnd2 =
     (let tmp256 = Sum 2048 (bytes_of_string pw);
          crypto = initialize new_state;
          crypto = absorbMany crypto tmp256;
          crypto = absorbStop crypto;
          crypto = absorb crypto 4
      in case rnd1 of
           Inl err1 \<Rightarrow> Inr (sink, None, Some err1)
         | Inr iv \<Rightarrow>
             pbind (XORKeyStream crypto (replicate 4 0) iv) (\<lambda>(crypto, encIV).
               let (encIV, iv) =
                     (if encIV ! 0 = 1
                      then (encIV[0 := encIV ! 0 XOR iv ! 0 XOR (iv ! 0 + 1)], iv[0 := iv ! 0 + 1])
                      else (encIV, iv));
                   sink = fst (wr sink encIV);
                   crypto = fst (rehashKey crypto iv tmp256)
               in case rnd2 of
                    Inl err1 \<Rightarrow> Inr (sink, None, Some err1)
                  | Inr rbytes \<Rightarrow>
                      let lastbyte = unat (rbytes ! 3);
                          rbhash = Sum 32 rbytes
                      in pbind (StreamWriter_Write wr crypto sink rbytes) (\<lambda>(crypto, sink, err1).
                           let crypto = discard lastbyte crypto
                           in pbind (StreamWriter_Write wr crypto sink [2]) (\<lambda>(crypto, sink, err2).
                                pbind (StreamWriter_Write wr crypto sink rbhash) (\<lambda>(crypto, sink, err3).
                                  let namebytes = of_nat (length origfn) # bytes_of_string origfn
                                  in pbind (StreamWriter_Write wr crypto sink namebytes)
                                       (\<lambda>(crypto, sink, err4).
                                          Inr (sink, Some crypto,
                                               errs_First ''Writing encryption header''
                                                 [err1, err2, err3, err4])))))))"

section \<open>Sinks and whole envelopes\<close>

text \<open>
  Three sinks: a buffer that appends what is written (\<open>bytes.Buffer\<close>), a log that keeps
  every write apart, and a sink whose first write fails without writing and whose later
  writes append. The state of the last is the number of writes so far and the bytes it holds.
\<close>

definition buffer_Write :: "byte list writer" where
  "buffer_Write buf p = (buf @ p, None)"

definition log_Write :: "byte list list writer" where
  "log_Write log p = (log @ [p], None)"

definition failFirst_Write :: "(nat \<times> byte list) writer" where
  "failFirst_Write w p =
     (if fst w = 0 then ((Suc 0, snd w), Some (IOError ''write failed''))
      else ((Suc (fst w), snd w @ p), None))"

text \<open>
  Writing an envelope into an empty buffer: \<open>WrapWriter\<close>, then one \<open>Write\<close> of the payload
  on the writer it returned. Reading one: \<open>WrapReader\<close>, then the returned reader read to
  its end. Both are \<open>None\<close> when a step panics or returns an error.
\<close>

definition writeEnvelope ::
  "string \<Rightarrow> string \<Rightarrow> byte list \<Rightarrow> byte list \<Rightarrow> byte list \<Rightarrow> byte list option" where
  "writeEnvelope pw origfn iv rbytes payload =
     (case WrapWriter buffer_Write [] pw origfn (Inr iv) (Inr rbytes) of
        Inr (sink, Some S, None) \<Rightarrow>
          (case StreamWriter_Write buffer_Write S sink payload of
             Inr (S, sink, None) \<Rightarrow> Some sink
           | _ \<Rightarrow> None)
      | _ \<Rightarrow> None)"

definition readEnvelope :: "byte list \<Rightarrow> string \<Rightarrow> (string \<times> byte list) option" where
  "readEnvelope env pw =
     (case WrapReader env pw of
        Inr (Some (S, R), fn, None) \<Rightarrow>
          (case StreamReader_ReadAll S R of
             Inr (S, payload) \<Rightarrow> Some (fn, payload)
           | _ \<Rightarrow> None)
      | _ \<Rightarrow> None)"

section \<open>Keystream, and the values the envelope code computes on its way\<close>

text \<open>
  The first \<open>n\<close> bytes a state drips, the state after them, and a byte sequence XORed
  with the keystream of a state.
\<close>

definition keystream :: "state \<Rightarrow> nat \<Rightarrow> byte list" where
  "keystream st n = fst (dripMany st n)"

definition after :: "state \<Rightarrow> nat \<Rightarrow> state" where
  "after st n = snd (dripMany st n)"

definition crypt :: "state \<Rightarrow> byte list \<Rightarrow> byte list" where
  "crypt st src = map2 (XOR) src (keystream st (length src))"

text \<open>
  The state both \<open>WrapWriter\<close> and \<open>readHeader\<close> build from the password before they touch
  the IV; the writer's treatment of the IV, which returns the encrypted IV it writes and the
  IV it goes on with; and the state after \<open>rehashKey\<close>, which encrypts the rest.
\<close>

definition keyPrelude :: "string \<Rightarrow> state" where
  "keyPrelude pw =
     absorb (absorbStop (absorbMany (initialize new_state) (Sum 2048 (bytes_of_string pw)))) 4"

definition antiV1 :: "byte list \<Rightarrow> byte list \<Rightarrow> byte list \<times> byte list" where
  "antiV1 encIV iv =
     (if encIV ! 0 = 1
      then (encIV[0 := encIV ! 0 XOR iv ! 0 XOR (iv ! 0 + 1)], iv[0 := iv ! 0 + 1])
      else (encIV, iv))"

definition sealIV :: "string \<Rightarrow> byte list \<Rightarrow> byte list \<times> byte list" where
  "sealIV pw iv = antiV1 (crypt (keyPrelude pw) iv) iv"

definition bodyKey :: "string \<Rightarrow> byte list \<Rightarrow> state" where
  "bodyKey pw iv =
     fst (rehashKey (after (keyPrelude pw) 4) iv (Sum 2048 (bytes_of_string pw)))"

text \<open>
  What \<open>readHeader\<close> decrypts from \<open>src\<close> after the first byte: the IV, the four bytes
  \<open>rbytes\<close>, and the six bytes \<open>remaining\<close>, taken from the keystream \<open>rbytes[3]\<close>
  bytes further on. What \<open>readV1Header\<close> decrypts: the nine bytes \<open>encheader\<close>.
\<close>

definition v2_iv :: "byte list \<Rightarrow> byte \<Rightarrow> string \<Rightarrow> byte list" where
  "v2_iv src firstByte pw = crypt (keyPrelude pw) (firstByte # take 3 src)"

definition v2_rbytes :: "byte list \<Rightarrow> byte \<Rightarrow> string \<Rightarrow> byte list" where
  "v2_rbytes src firstByte pw =
     crypt (bodyKey pw (v2_iv src firstByte pw)) (take 4 (drop 3 src))"

definition v2_remaining :: "byte list \<Rightarrow> byte \<Rightarrow> string \<Rightarrow> byte list" where
  "v2_remaining src firstByte pw =
     crypt (after (bodyKey pw (v2_iv src firstByte pw)) (4 + unat (v2_rbytes src firstByte pw ! 3)))
       (take 6 (drop 7 src))"

definition v1_encheader :: "byte list \<Rightarrow> string \<Rightarrow> byte list" where
  "v1_encheader src pw = crypt (newStream pw (take 4 src) 5000) (take 9 (drop 4 src))"

section \<open>The specification's wording of two operations\<close>

text \<open>
  Section 4.1: require \<open>len(dst) \<ge> len(src)\<close>; if \<open>a > 0\<close>, shuffle once; then for each
  input byte, \<open>dst[i] \<leftarrow> src[i] XOR drip(state)\<close>.
\<close>

definition xorKeystream_spec :: "state \<Rightarrow> byte list \<Rightarrow> byte list \<Rightarrow> state \<times> byte list" where
  "xorKeystream_spec st dst src =
     (let st0 = (if 0 < st_a st then shuffle st else st);
          ks = dripMany st0 (length src)
      in (snd ks, map2 (XOR) src (fst ks) @ drop (length src) dst))"

text \<open>Section 4.3: the six steps of the key schedule, step 5 being \<open>specRound\<close>.\<close>

definition specRound :: "state \<times> byte list \<Rightarrow> state \<times> byte list" where
  "specRound sk =
     (let st = initialize (fst sk);
          st = absorbStop (absorbMany st (snd sk));
          st = absorb st 128;
          r = dripMany st 128
      in (snd r, fst r))"

definition newStream_spec :: "string \<Rightarrow> byte list \<Rightarrow> int \<Rightarrow> state" where
  "newStream_spec password iv iterations =
     (let st = initialize new_state;
          st = (if iv \<noteq> [] then absorbStop (absorbMany st iv) else st);
          st = absorbMany st (Sum 1024 (bytes_of_string password));
          r = squeezeBytes st 128;
          sk = (specRound ^^ nat iterations) (snd r, fst r);
          st = initialize (fst sk)
      in absorbMany st (snd sk))"

section \<open>The V2 and V1 layouts in the specification's words\<close>

text \<open>
  Section 4.4, steps 5 to 9, and the V2 table of section 6: the writes that make up a V2
  header, in order. First the encrypted IV, as it is; then, under the keystream of the
  rehashed state, the four bytes \<open>rbytes\<close>; then, \<open>rbytes[3]\<close> keystream bytes further
  on, the version byte 2, the four bytes of \<open>sum(32, rbytes)\<close>, and the length byte with
  the bytes of the filename. \<open>writerState\<close> is the state the returned writer encrypts the
  payload with.
\<close>

definition headerChunks :: "string \<Rightarrow> string \<Rightarrow> byte list \<Rightarrow> byte list \<Rightarrow> byte list list" where
  "headerChunks pw origfn iv rbytes =
     (let Q = bodyKey pw (snd (sealIV pw iv));
          r = unat (rbytes ! 3)
      in [fst (sealIV pw iv),
          crypt Q rbytes,
          crypt (after Q (4 + r)) [2],
          crypt (after Q (5 + r)) (Sum 32 rbytes),
          crypt (after Q (9 + r)) (of_nat (length origfn) # bytes_of_string origfn)])"

definition writerState :: "string \<Rightarrow> string \<Rightarrow> byte list \<Rightarrow> byte list \<Rightarrow> state" where
  "writerState pw origfn iv rbytes =
     after (bodyKey pw (snd (sealIV pw iv))) (10 + unat (rbytes ! 3) + length origfn)"

text \<open>
  The bytes on disk that carry given contents. \<open>v2_bytes pw encIV rbytes plain\<close> is the
  V2 table of section 6 for the encrypted IV \<open>encIV\<close>, the random bytes \<open>rbytes\<close> and the
  plaintext \<open>plain\<close> of everything from the version byte on. \<open>v1_bytes pw iv plain\<close> is
  the V1 table for the IV \<open>iv\<close> and the plaintext \<open>plain\<close> of everything after it.
\<close>

definition v2_bytes :: "string \<Rightarrow> byte list \<Rightarrow> byte list \<Rightarrow> byte list \<Rightarrow> byte list" where
  "v2_bytes pw encIV rbytes plain =
     (let Q = bodyKey pw (crypt (keyPrelude pw) encIV)
      in encIV @ crypt Q rbytes @ crypt (after Q (4 + unat (rbytes ! 3))) plain)"

definition v1_bytes :: "string \<Rightarrow> byte list \<Rightarrow> byte list \<Rightarrow> byte list" where
  "v1_bytes pw iv plain = 1 # iv @ crypt (newStream pw iv 5000) plain"

section \<open>Particular inputs\<close>

text \<open>
  A V2 envelope for the password \<open>pw\<close> that ends right after its length byte, which
  announces a filename of one byte: the encrypted IV is four zero bytes, \<open>rbytes\<close> is
  \<open>4, 5, 6, 7\<close>, the version is 2 and the digest is the right one.
\<close>

definition truncatedEnvelope :: "byte list" where
  "truncatedEnvelope = v2_bytes ''pw'' [0, 0, 0, 0] [4, 5, 6, 7] (2 # Sum 32 [4, 5, 6, 7] @ [1])"

text \<open>
  A V1 file for the password \<open>pw\<close> whose stored checksum has 1 added to each byte, and a
  V2 file for the same password whose version byte is 3; both announce an empty filename.
\<close>

definition badV1 :: "byte list" where
  "badV1 = v1_bytes ''pw'' [0, 0, 0, 0] ([4, 5, 6, 7] @ map (\<lambda>b. b + 1) (Sum 32 [4, 5, 6, 7]) @ [0])"

definition badV2 :: "byte list" where
  "badV2 = v2_bytes ''pw'' [0, 0, 0, 0] [4, 5, 6, 7] (3 # Sum 32 [4, 5, 6, 7] @ [0])"

text \<open>
  An IV whose encryption under the password begins with the byte 1, so that the writer's
  repair of a V1 look-alike applies: its first byte is the first keystream byte XOR 1.
\<close>

definition firingIV :: "string \<Rightarrow> byte list" where
  "firingIV pw = [keystream (keyPrelude pw) 4 ! 0 XOR 1, 0, 0, 0]"

text \<open>
  A V2 file for the password \<open>pw\<close> with the right version byte and a stored digest that
  has 1 added to each byte.
\<close>

definition badHashV2 :: "byte list" where
  "badHashV2 = v2_bytes ''pw'' [0, 0, 0, 0] [4, 5, 6, 7]
                 (2 # map (\<lambda>b. b + 1) (Sum 32 [4, 5, 6, 7]) @ [0])"

section \<open>Bytes and strings\<close>

lemma char_of_byte_of_char [simp]: "char_of_byte (byte_of_char c) = c"
  by (simp add: char_of_byte_def byte_of_char_def unat_of_nat)

lemma string_of_bytes_of_string [simp]: "string_of_bytes (bytes_of_string str) = str"
  by (simp add: string_of_bytes_def bytes_of_string_def map_idI)

lemma length_bytes_of_string [simp]: "length (bytes_of_string str) = length str"
  by (simp add: bytes_of_string_def)

section \<open>The absorb counter and the keystream\<close>

lemma st_a_update [simp]: "st_a (update st) = st_a st"
  by (simp add: update_def swap_def Let_def)

lemma st_a_shuffle [simp]: "st_a (shuffle st) = 0"
  by (simp add: shuffle_def Let_def)

lemma st_a_drip [simp]: "st_a (snd (drip st)) = 0"
  by (simp add: drip_def Let_def word_gt_0)

lemma drip_shuffle: "0 < st_a st \<Longrightarrow> drip (shuffle st) = drip st"
  by (simp add: drip_def)

lemma dripMany_shuffle: "0 < st_a st \<Longrightarrow> 0 < n \<Longrightarrow> dripMany (shuffle st) n = dripMany st n"
  by (cases n) (simp_all add: drip_shuffle)

lemma length_keystream [simp]: "length (keystream st n) = n"
  by (induction n arbitrary: st) (simp_all add: keystream_def Let_def)

lemma keystream_add: "keystream st (m + n) = keystream st m @ keystream (after st m) n"
  by (induction m arbitrary: st) (simp_all add: keystream_def after_def Let_def)

lemma after_add: "after st (m + n) = after (after st m) n"
  by (induction m arbitrary: st) (simp_all add: after_def Let_def)

lemma after_0 [simp]: "after st 0 = st"
  by (simp add: after_def)

lemma st_a_after: "st_a st = 0 \<or> 0 < n \<Longrightarrow> st_a (after st n) = 0"
  by (induction n arbitrary: st) (auto simp: after_def Let_def)

lemma discard_after: "discard n st = after st n"
  by (induction n arbitrary: st) (simp_all add: after_def Let_def)

lemma length_crypt [simp]: "length (crypt st src) = length src"
  by (simp add: crypt_def)

lemma crypt_Nil [simp]: "crypt st [] = []"
  by (simp add: crypt_def)

lemma crypt_append: "crypt st (xs @ ys) = crypt st xs @ crypt (after st (length xs)) ys"
  by (simp add: crypt_def keystream_add)

lemma crypt_crypt [simp]: "crypt st (crypt st xs) = xs"
  by (simp add: crypt_def list_eq_iff_nth_eq xor.assoc)

lemma xorLoop_eq:
  "idx + length src \<le> length dst \<Longrightarrow>
   xorLoop st dst idx src =
     (after st (length src), take idx dst @ crypt st src @ drop (idx + length src) dst)"
proof (induction src arbitrary: st dst idx)
  case Nil
  then show ?case by simp
next
  case (Cons v vs)
  have "take (Suc idx) (dst[idx := x]) = take idx dst @ [x]" for x
    using Cons.prems by (simp add: take_Suc_conv_app_nth)
  with Cons show ?case
    by (simp add: Let_def after_def crypt_def keystream_def)
qed

lemma st_a_settled: "st_a (after (if 0 < st_a st then shuffle st else st) m) = 0"
  by (rule st_a_after) (simp add: word_gt_0)

lemma length_dripMany [simp]: "length (fst (dripMany st n)) = n"
  using length_keystream [of st n] by (simp add: keystream_def)

lemma squeezeBytes_dripMany: "0 < n \<Longrightarrow> squeezeBytes st n = dripMany st n"
  by (simp add: squeezeBytes_def dripMany_shuffle)

lemma length_Sum [simp]: "length (Sum bits msg) = bits div 8"
  by (simp add: Sum_def Let_def squeezeBytes_def)

section \<open>The XOR stream interface\<close>

text \<open>
  C5: for every state and every \<open>dst\<close> and \<open>src\<close>, \<open>XORKeyStream\<close> refuses the call with
  a panic when \<open>dst\<close> is shorter than \<open>src\<close>, and nothing is written. Otherwise it does
  what the specification words: one shuffle when \<open>a > 0\<close>, then \<open>dst[i] = src[i] XOR drip\<close>
  for the indices of \<open>src\<close> in order, the rest of \<open>dst\<close> untouched. After that one
  shuffle \<open>a\<close> is 0 at every byte of the loop, so no \<open>drip\<close> shuffles again.
\<close>

theorem XORKeyStream_refuses_or_xors:
  "XORKeyStream st dst src =
     (if length dst < length src then Inl (Panic ''Bad args to XORKeyStream!'')
      else Inr (xorKeystream_spec st dst src))
   \<and> (\<forall>m. st_a (after (if 0 < st_a st then shuffle st else st) m) = 0)"
proof
  show "XORKeyStream st dst src =
     (if length dst < length src then Inl (Panic ''Bad args to XORKeyStream!'')
      else Inr (xorKeystream_spec st dst src))"
    by (simp add: XORKeyStream_def xorKeystream_spec_def xorLoop_eq Let_def
        after_def crypt_def keystream_def)
  show "\<forall>m. st_a (after (if 0 < st_a st then shuffle st else st) m) = 0"
    using st_a_settled by blast
qed

text \<open>
  On a freshly initialized state the first two keystream bytes are 4 and 20, so the bytes
  \<open>1, 2\<close> are encrypted to \<open>5, 22\<close>, and the third byte of \<open>dst\<close> stays as it was.
\<close>

lemma drip_fresh:
  "fst (drip (initialize new_state)) = 4"
  "fst (drip (snd (drip (initialize new_state)))) = 20"
  by (simp_all add: drip_def update_def swap_def initialize_def new_state_def Let_def)

lemma xorKeystream_spec_fresh:
  "snd (xorKeystream_spec (initialize new_state) [0, 0, 0] [1, 2]) = [5, 22, 0]"
  by (simp add: xorKeystream_spec_def Let_def numeral_2_eq_2 drip_fresh)
     (simp add: initialize_def new_state_def)

theorem XORKeyStream_refuses_or_xors_witness:
  "XORKeyStream (initialize new_state) [0] [1, 2] = Inl (Panic ''Bad args to XORKeyStream!'')
   \<and> (\<exists>st'. XORKeyStream (initialize new_state) [0, 0, 0] [1, 2] = Inr (st', [5, 22, 0]))"
proof -
  have "XORKeyStream (initialize new_state) [0, 0, 0] [1, 2] =
          Inr (fst (xorKeystream_spec (initialize new_state) [0, 0, 0] [1, 2]), [5, 22, 0])"
    using XORKeyStream_refuses_or_xors [of "initialize new_state" "[0, 0, 0]" "[1, 2]"]
    by (simp add: xorKeystream_spec_fresh [symmetric])
  moreover have "XORKeyStream (initialize new_state) [0] [1, 2] =
          Inl (Panic ''Bad args to XORKeyStream!'')"
    using XORKeyStream_refuses_or_xors [of "initialize new_state" "[0]" "[1, 2]"]
    by simp
  ultimately show ?thesis by blast
qed

section \<open>The key schedule\<close>

lemma keyLoop_funpow:
  "length keyBytes = 128 \<Longrightarrow>
   keyLoop idx iterations crypto keyBytes = (specRound ^^ nat (iterations - idx)) (crypto, keyBytes)"
proof (induction idx iterations crypto keyBytes rule: keyLoop.induct)
  case (1 idx iterations crypto keyBytes)
  show ?case
  proof (cases "idx < iterations")
    case False
    then show ?thesis by (simp add: keyLoop.simps)
  next
    case True
    define st where "st = absorb (absorbStop (absorbMany (initialize crypto) keyBytes)) 128"
    have n: "nat (iterations - idx) = Suc (nat (iterations - (idx + 1)))"
      using True by simp
    have step: "specRound (crypto, keyBytes) = (snd (dripMany st 128), fst (dripMany st 128))"
      by (simp add: specRound_def st_def Let_def)
    have "keyLoop idx iterations crypto keyBytes =
            keyLoop (idx + 1) iterations (snd (dripMany st 128)) (fst (dripMany st 128))"
      using True "1.prems" by (subst keyLoop.simps) (simp add: Let_def st_def)
    also have "\<dots> = (specRound ^^ nat (iterations - (idx + 1)))
                      (snd (dripMany st 128), fst (dripMany st 128))"
      using "1.IH" [OF True refl refl refl refl refl] "1.prems"
      by (simp add: st_def)
    also have "\<dots> = (specRound ^^ nat (iterations - idx)) (crypto, keyBytes)"
      by (simp only: n funpow_Suc_right o_apply step)
    finally show ?thesis .
  qed
qed

text \<open>
  C4: for every password, IV and iteration count \<open>newStream\<close> returns the state that the six
  steps of the specification produce: fresh \<open>initialize\<close>; \<open>absorbMany(iv)\<close> and
  \<open>absorbStop\<close> when the IV is not empty; \<open>absorbMany\<close> of the digest
  \<open>sum(1024, password)\<close>, which is 128 bytes long; \<open>keyBytes\<close> from \<open>squeezeBytes(128)\<close>;
  \<open>iterations\<close> rounds of \<open>initialize\<close>, \<open>absorbMany(keyBytes)\<close>, \<open>absorbStop\<close>,
  \<open>absorbByte(128)\<close> and 128 bytes dripped over \<open>keyBytes\<close>; then \<open>initialize\<close> and
  \<open>absorbMany(keyBytes)\<close>.
\<close>

theorem newStream_key_schedule:
  "newStream password iv iterations = newStream_spec password iv iterations
   \<and> length (Sum 1024 (bytes_of_string password)) = 128"
  by (simp add: newStream_def newStream_spec_def Let_def squeezeBytes_dripMany keyLoop_funpow)

theorem newStream_key_schedule_witness:
  "newStream ''password'' [1, 2, 3, 4] 5000 = newStream_spec ''password'' [1, 2, 3, 4] 5000
   \<and> newStream ''password'' [] 0 = newStream_spec ''password'' [] 0"
  using newStream_key_schedule [of "''password''" "[1, 2, 3, 4]" 5000]
    newStream_key_schedule [of "''password''" "[]" 0]
  by blast

section \<open>Running the stream wrappers, the writer and the reader\<close>

lemma XORKeyStream_eq:
  assumes "length dst = length src" and "st_a st = 0 \<or> 0 < length src"
  shows "XORKeyStream st dst src = Inr (after st (length src), crypt st src)"
proof (cases "0 < st_a st")
  case False
  with assms(1) show ?thesis
    by (simp add: XORKeyStream_def xorLoop_eq)
next
  case True
  with assms(2) have pos: "0 < length src" by auto
  have "after (shuffle st) (length src) = after st (length src)"
    and "crypt (shuffle st) src = crypt st src"
    using True pos by (simp_all add: after_def crypt_def keystream_def dripMany_shuffle)
  with True assms(1) show ?thesis
    by (simp add: XORKeyStream_def xorLoop_eq)
qed

lemma StreamWriter_Write_eq:
  "st_a S = 0 \<or> 0 < length src \<Longrightarrow>
   StreamWriter_Write wr S W src =
     Inr (after S (length src), fst (wr W (crypt S src)), snd (wr W (crypt S src)))"
  by (simp add: StreamWriter_Write_def XORKeyStream_eq pbind_def case_prod_beta)

lemma StreamReader_ReadFull_eq:
  "st_a S = 0 \<or> (0 < length R \<and> 0 < n) \<Longrightarrow>
   StreamReader_ReadFull S R n =
     Inr (after S (min n (length R)), drop n R,
          if length R < n then Inl (if R = [] then EOF else ErrUnexpectedEOF)
          else Inr (crypt S (take n R)))"
  by (auto simp: StreamReader_ReadFull_def XORKeyStream_eq pbind_def Let_def min_def)

text \<open>
  Once the absorb counter is 0, two writes through the stream put the same bytes into a
  buffer as one write of the concatenation, and two reads through the stream decrypt the
  same bytes as one read of both lengths: it does not matter in how many calls a payload
  is written or read.
\<close>

lemma StreamWriter_Write_append:
  assumes "st_a S = 0"
  shows "pbind (StreamWriter_Write buffer_Write S W xs)
           (\<lambda>(S', W', e). StreamWriter_Write buffer_Write S' W' ys) =
         StreamWriter_Write buffer_Write S W (xs @ ys)"
proof -
  have "st_a (after S (length xs)) = 0"
    using assms by (simp add: st_a_after)
  then show ?thesis
    using assms
    by (simp add: StreamWriter_Write_eq pbind_def buffer_Write_def crypt_append after_add)
qed

lemma StreamReader_ReadFull_split:
  assumes "st_a S = 0" and "m + n \<le> length R"
  shows "pbind (StreamReader_ReadFull S R m)
           (\<lambda>(S', R', r). pbind (StreamReader_ReadFull S' R' n)
              (\<lambda>(S'', R'', r'). Inr (S'', R'', case r of Inl e \<Rightarrow> Inl e
                 | Inr xs \<Rightarrow> (case r' of Inl e \<Rightarrow> Inl e | Inr ys \<Rightarrow> Inr (xs @ ys))))) =
         StreamReader_ReadFull S R (m + n)"
proof -
  have a: "st_a (after S m) = 0"
    using assms(1) by (simp add: st_a_after)
  have t: "take (m + n) R = take m R @ take n (drop m R)"
    by (simp add: take_add)
  have l: "length (take m R) = m"
    using assms(2) by simp
  show ?thesis
    using assms a
    by (simp add: StreamReader_ReadFull_eq pbind_def t crypt_append l after_add add.commute)
qed

lemma after_after: "after (after st m) n = after st (m + n)"
  by (simp add: after_add)

lemma st_a_after_pos [simp]: "0 < n \<Longrightarrow> st_a (after st n) = 0"
  by (simp add: st_a_after)

lemma length_sealIV [simp]:
  "length (fst (sealIV pw iv)) = length iv" "length (snd (sealIV pw iv)) = length iv"
  by (simp_all add: sealIV_def antiV1_def)

lemma WrapWriter_run:
  assumes "length iv = 4" and "length rbytes = 4"
  shows "WrapWriter wr sink pw origfn (Inr iv) (Inr rbytes) =
     (let cs = headerChunks pw origfn iv rbytes;
          w0 = wr sink (cs ! 0);
          w1 = wr (fst w0) (cs ! 1);
          w2 = wr (fst w1) (cs ! 2);
          w3 = wr (fst w2) (cs ! 3);
          w4 = wr (fst w3) (cs ! 4)
      in Inr (fst w4, Some (writerState pw origfn iv rbytes),
              errs_First ''Writing encryption header'' [snd w1, snd w2, snd w3, snd w4]))"
proof -
  have P: "XORKeyStream (keyPrelude pw) (replicate 4 0) iv =
             Inr (after (keyPrelude pw) 4, crypt (keyPrelude pw) iv)"
    using assms(1) XORKeyStream_eq [of "replicate 4 0" iv "keyPrelude pw"] by simp
  show ?thesis
    unfolding WrapWriter_def Let_def keyPrelude_def [symmetric]
    using assms
    by (simp add: P pbind_def StreamWriter_Write_eq discard_after after_after headerChunks_def
        writerState_def sealIV_def antiV1_def bodyKey_def Let_def case_prod_beta
        add.commute add.left_commute)
qed


lemma WrapWriter_rnd1: "WrapWriter wr sink pw origfn (Inl e) rnd2 = Inr (sink, None, Some e)"
  by (simp add: WrapWriter_def Let_def)

lemma WrapWriter_rnd2:
  assumes "length iv = 4"
  shows "WrapWriter wr sink pw origfn (Inr iv) (Inl e) =
           Inr (fst (wr sink (fst (sealIV pw iv))), None, Some e)"
proof -
  have P: "XORKeyStream (keyPrelude pw) (replicate 4 0) iv =
             Inr (after (keyPrelude pw) 4, crypt (keyPrelude pw) iv)"
    using assms(1) XORKeyStream_eq [of "replicate 4 0" iv "keyPrelude pw"] by simp
  show ?thesis
    unfolding WrapWriter_def Let_def keyPrelude_def [symmetric]
    by (simp add: P pbind_def sealIV_def antiV1_def case_prod_beta)
qed

lemma readHeader_run:
  assumes "13 \<le> length src"
  shows "readHeader src fb pw =
     Inr (let K = after (bodyKey pw (v2_iv src fb pw)) (10 + unat (v2_rbytes src fb pw ! 3));
              rem = v2_remaining src fb pw;
              L = unat (rem ! 5);
              rest = drop 13 src
          in if rem ! 0 \<noteq> 2 \<or> take 4 (drop 1 rem) \<noteq> Sum 32 (v2_rbytes src fb pw)
             then (Some (K, rest), [], Some (Errorf ''Bad pw or corrupted file!''))
             else if 0 < rem ! 5
             then (if length rest < L
                   then (Some (after K (length rest), []), [],
                         Some (if rest = [] then EOF else ErrUnexpectedEOF))
                   else (Some (after K L, drop L rest),
                         string_of_bytes (crypt K (take L rest)), None))
             else (Some (K, rest), [], None))"
proof -
  have P: "XORKeyStream (keyPrelude pw) (fb # take 3 src) (fb # take 3 src) =
             Inr (after (keyPrelude pw) 4, v2_iv src fb pw)"
    using assms XORKeyStream_eq [of "fb # take 3 src" "fb # take 3 src" "keyPrelude pw"]
    by (simp add: v2_iv_def)
  have m: "min 4 (length src - 3) = 4" "min 6 (length src - 7) = 6"
    using assms by simp_all
  show ?thesis
    unfolding readHeader_def Let_def keyPrelude_def [symmetric]
    using assms
    by (auto simp: io_ReadFull_def P pbind_def StreamReader_ReadFull_eq discard_after m
        bodyKey_def [symmetric] v2_rbytes_def [symmetric] v2_remaining_def [symmetric]
        after_after add.commute add.left_commute min_def)
qed

lemma take_keystream: "take n (keystream st m) = keystream st (min n m)"
proof (cases "n \<le> m")
  case True
  then obtain d where "m = n + d" by (auto simp: le_iff_add)
  then show ?thesis by (simp add: keystream_add)
next
  case False
  then show ?thesis by simp
qed

lemma drop_keystream: "n \<le> m \<Longrightarrow> drop n (keystream st m) = keystream (after st n) (m - n)"
proof -
  assume "n \<le> m"
  then obtain d where "m = n + d" by (auto simp: le_iff_add)
  then show ?thesis by (simp add: keystream_add)
qed

lemma take_crypt: "take n (crypt st xs) = crypt st (take n xs)"
  by (simp add: crypt_def take_zip take_map take_keystream min.commute)

lemma drop_crypt: "n \<le> length xs \<Longrightarrow> drop n (crypt st xs) = crypt (after st n) (drop n xs)"
  by (simp add: crypt_def drop_zip drop_map drop_keystream)

lemma crypt_nth: "i < length xs \<Longrightarrow> crypt st xs ! i = xs ! i XOR keystream st (length xs) ! i"
  by (simp add: crypt_def)

lemma crypt_update:
  "crypt st (xs[i := x]) = (crypt st xs)[i := x XOR keystream st (length xs) ! i]"
proof (rule nth_equalityI)
  show "length (crypt st (xs[i := x])) =
        length ((crypt st xs)[i := x XOR keystream st (length xs) ! i])"
    by simp
  fix n
  assume "n < length (crypt st (xs[i := x]))"
  then have n: "n < length xs" by simp
  show "crypt st (xs[i := x]) ! n =
        (crypt st xs)[i := x XOR keystream st (length xs) ! i] ! n"
    using n by (cases "i = n") (simp_all add: crypt_nth)
qed

lemma sealIV_decrypt:
  assumes "0 < length iv"
  shows "crypt (keyPrelude pw) (fst (sealIV pw iv)) = snd (sealIV pw iv)"
proof (cases "crypt (keyPrelude pw) iv ! 0 = 1")
  case False
  then show ?thesis by (simp add: sealIV_def antiV1_def)
next
  case True
  have "(crypt (keyPrelude pw) iv ! 0 XOR iv ! 0 XOR (iv ! 0 + 1))
          XOR keystream (keyPrelude pw) (length iv) ! 0 = iv ! 0 + 1"
    using assms by (simp add: crypt_nth xor.assoc xor.left_commute)
  with True show ?thesis
    by (simp add: sealIV_def antiV1_def crypt_update)
qed

lemma sealIV_first:
  assumes "0 < length iv"
  shows "fst (sealIV pw iv) ! 0 \<noteq> 1"
proof (cases "crypt (keyPrelude pw) iv ! 0 = 1")
  case False
  then show ?thesis by (simp add: sealIV_def antiV1_def)
next
  case True
  have "1 XOR iv ! 0 XOR (iv ! 0 + 1) \<noteq> 1"
  proof
    assume "1 XOR iv ! 0 XOR (iv ! 0 + 1) = 1"
    then have "1 XOR (1 XOR iv ! 0 XOR (iv ! 0 + 1)) = 1 XOR 1" by simp
    then have "iv ! 0 XOR (iv ! 0 + 1) = 0" by (simp add: xor.assoc [symmetric])
    then have "iv ! 0 XOR (iv ! 0 XOR (iv ! 0 + 1)) = iv ! 0 XOR 0" by simp
    then have "iv ! 0 + 1 = iv ! 0" by (simp add: xor.assoc [symmetric])
    then show False by simp
  qed
  with True assms show ?thesis
    by (simp add: sealIV_def antiV1_def)
qed


lemma WrapReader_dispatch:
  "src \<noteq> [] \<Longrightarrow>
   WrapReader src pw =
     (if src ! 0 = 1 then readV1Header (drop 1 src) pw
      else readHeader (drop 1 src) (src ! 0) pw)"
  by (cases src) (simp_all add: WrapReader_def io_ReadFull_def)

lemma v2_bytes_fields:
  fixes pw :: string and encIV rbytes plain :: "byte list"
  assumes "length encIV = 4" and "length rbytes = 4" and "6 \<le> length plain"
  defines "src \<equiv> v2_bytes pw encIV rbytes plain"
  shows "v2_iv (drop 1 src) (src ! 0) pw = crypt (keyPrelude pw) encIV"
    and "v2_rbytes (drop 1 src) (src ! 0) pw = rbytes"
    and "v2_remaining (drop 1 src) (src ! 0) pw = take 6 plain"
    and "drop 13 (drop 1 src) =
           crypt (after (bodyKey pw (crypt (keyPrelude pw) encIV)) (10 + unat (rbytes ! 3)))
             (drop 6 plain)"
    and "length src = 8 + length plain"
proof -
  obtain a b c d where e: "encIV = [a, b, c, d]"
    using assms(1) by (auto simp: length_Suc_conv numeral_eq_Suc)
  define Q where "Q = bodyKey pw (crypt (keyPrelude pw) encIV)"
  define A where "A = after Q (4 + unat (rbytes ! 3))"
  have src: "src = encIV @ crypt Q rbytes @ crypt A plain"
    by (simp add: src_def v2_bytes_def Q_def A_def Let_def)
  show iv: "v2_iv (drop 1 src) (src ! 0) pw = crypt (keyPrelude pw) encIV"
    by (simp add: v2_iv_def src e)
  show rb: "v2_rbytes (drop 1 src) (src ! 0) pw = rbytes"
    unfolding v2_rbytes_def iv Q_def [symmetric]
    using assms(2) by (simp add: src e)
  show "v2_remaining (drop 1 src) (src ! 0) pw = take 6 plain"
    unfolding v2_remaining_def iv rb Q_def [symmetric] A_def [symmetric]
    using assms(2) by (simp add: src e take_crypt [symmetric])
  show "drop 13 (drop 1 src) =
           crypt (after (bodyKey pw (crypt (keyPrelude pw) encIV)) (10 + unat (rbytes ! 3)))
             (drop 6 plain)"
    using assms(2,3)
    by (simp add: src e drop_crypt A_def Q_def after_after add.commute)
  show "length src = 8 + length plain"
    using assms(2) by (simp add: src e)
qed


lemma crypt_eq_Nil [simp]: "crypt st xs = [] \<longleftrightarrow> xs = []"
  using length_crypt [of st xs] by (metis length_0_conv)

lemma WrapReader_v2_bytes:
  fixes pw :: string and encIV rbytes h rest :: "byte list" and v L :: byte
  assumes "length encIV = 4" and "encIV ! 0 \<noteq> 1" and "length rbytes = 4" and "length h = 4"
  defines "K \<equiv> after (bodyKey pw (crypt (keyPrelude pw) encIV)) (10 + unat (rbytes ! 3))"
  shows "WrapReader (v2_bytes pw encIV rbytes (v # h @ L # rest)) pw =
     Inr (if v \<noteq> 2 \<or> h \<noteq> Sum 32 rbytes
          then (Some (K, crypt K rest), [], Some (Errorf ''Bad pw or corrupted file!''))
          else if 0 < L
          then (if length rest < unat L
                then (Some (after K (length rest), []), [],
                      Some (if rest = [] then EOF else ErrUnexpectedEOF))
                else (Some (after K (unat L), crypt (after K (unat L)) (drop (unat L) rest)),
                      string_of_bytes (take (unat L) rest), None))
          else (Some (K, crypt K rest), [], None))"
proof -
  define plain where "plain = v # h @ L # rest"
  define src where "src = v2_bytes pw encIV rbytes plain"
  have len: "6 \<le> length plain" "length plain = 6 + length rest"
    using assms(4) by (simp_all add: plain_def)
  note f = v2_bytes_fields [OF assms(1) assms(3) len(1), of pw, folded src_def]
  have src0: "src \<noteq> []" "src ! 0 \<noteq> 1"
    using assms(1,2) by (auto simp: src_def v2_bytes_def Let_def nth_append)
  have l13: "13 \<le> length (drop 1 src)"
    using f(5) len(2) by simp
  obtain h0 h1 h2 h3 where h: "h = [h0, h1, h2, h3]"
    using assms(4) by (auto simp: length_Suc_conv numeral_eq_Suc)
  have rem: "take 6 plain = v # h @ [L]"
    by (simp add: plain_def h)
  have rem': "(v # h @ [L]) ! 0 = v" "take 4 (drop 1 (v # h @ [L])) = h" "(v # h @ [L]) ! 5 = L"
    by (simp_all add: h)
  have d13: "drop 13 (drop 1 src) = crypt K rest"
    using f(4) by (simp add: K_def plain_def h)
  have "WrapReader src pw = readHeader (drop 1 src) (src ! 0) pw"
    using src0 by (simp add: WrapReader_dispatch)
  also have "\<dots> =
     Inr (if v \<noteq> 2 \<or> h \<noteq> Sum 32 rbytes
          then (Some (K, crypt K rest), [], Some (Errorf ''Bad pw or corrupted file!''))
          else if 0 < L
          then (if length rest < unat L
                then (Some (after K (length rest), []), [],
                      Some (if rest = [] then EOF else ErrUnexpectedEOF))
                else (Some (after K (unat L), crypt (after K (unat L)) (drop (unat L) rest)),
                      string_of_bytes (take (unat L) rest), None))
          else (Some (K, crypt K rest), [], None))"
    unfolding readHeader_run [OF l13] Let_def f(1,2,3) rem rem' K_def [symmetric] d13
    by (simp add: take_crypt drop_crypt)
  finally show ?thesis by (simp add: src_def plain_def)
qed


lemma crypt_header:
  assumes "length h = 4"
  shows "crypt A (v # h @ L # fnb @ payload) =
           crypt A [v] @ crypt (after A 1) h @ crypt (after A 5) (L # fnb)
             @ crypt (after A (6 + length fnb)) payload"
proof -
  have "crypt A (v # h @ L # fnb @ payload) = crypt A ([v] @ h @ (L # fnb) @ payload)"
    by simp
  also have "\<dots> = crypt A [v] @ crypt (after A 1) h @ crypt (after A 5) (L # fnb)
             @ crypt (after A (6 + length fnb)) payload"
    unfolding crypt_append after_after using assms by (simp add: add.commute)
  finally show ?thesis .
qed

lemma bodyKey_sealIV:
  "0 < length iv \<Longrightarrow> bodyKey pw (crypt (keyPrelude pw) (fst (sealIV pw iv))) = bodyKey pw (snd (sealIV pw iv))"
  by (simp add: sealIV_decrypt)

lemma writeEnvelope_eq:
  assumes "length iv = 4" and "length rbytes = 4"
  shows "writeEnvelope pw origfn iv rbytes payload =
     Some (v2_bytes pw (fst (sealIV pw iv)) rbytes
             (2 # Sum 32 rbytes @ of_nat (length origfn) # bytes_of_string origfn @ payload))"
proof -
  define Q where "Q = bodyKey pw (snd (sealIV pw iv))"
  define r where "r = unat (rbytes ! 3)"
  have W: "WrapWriter buffer_Write [] pw origfn (Inr iv) (Inr rbytes) =
             Inr (concat (headerChunks pw origfn iv rbytes),
                  Some (writerState pw origfn iv rbytes), None)"
    unfolding WrapWriter_run [OF assms]
    by (simp add: Let_def buffer_Write_def headerChunks_def errs_First_def)
  have a0: "st_a (writerState pw origfn iv rbytes) = 0"
    by (simp add: writerState_def)
  have "writeEnvelope pw origfn iv rbytes payload =
          Some (concat (headerChunks pw origfn iv rbytes)
                @ crypt (writerState pw origfn iv rbytes) payload)"
    by (simp add: writeEnvelope_def W StreamWriter_Write_eq a0 buffer_Write_def)
  also have "concat (headerChunks pw origfn iv rbytes)
                @ crypt (writerState pw origfn iv rbytes) payload =
     v2_bytes pw (fst (sealIV pw iv)) rbytes
       (2 # Sum 32 rbytes @ of_nat (length origfn) # bytes_of_string origfn @ payload)"
    using assms(1)
    by (simp add: v2_bytes_def headerChunks_def writerState_def Let_def bodyKey_sealIV
        crypt_header after_after add.commute add.left_commute)
  finally show ?thesis .
qed

lemma readEnvelope_writeEnvelope:
  fixes origfn pw :: string and iv rbytes payload :: "byte list"
  assumes "length iv = 4" and "length rbytes = 4"
  defines "n \<equiv> length origfn mod 256"
  shows "\<exists>env. writeEnvelope pw origfn iv rbytes payload = Some env
           \<and> readEnvelope env pw =
               Some (take n origfn, bytes_of_string (drop n origfn) @ payload)"
proof -
  define L :: byte where "L = of_nat (length origfn)"
  define rest where "rest = bytes_of_string origfn @ payload"
  define K where
    "K = after (bodyKey pw (crypt (keyPrelude pw) (fst (sealIV pw iv)))) (10 + unat (rbytes ! 3))"
  define env where "env = v2_bytes pw (fst (sealIV pw iv)) rbytes (2 # Sum 32 rbytes @ L # rest)"
  have uL: "unat L = n"
    by (simp add: L_def n_def unat_of_nat)
  have nle: "n \<le> length origfn"
    by (simp add: n_def)
  have pos: "0 < L \<longleftrightarrow> 0 < n"
    using uL by (simp add: word_gt_0 unat_eq_0 [symmetric])
  have aK: "st_a (after K m) = 0" for m
    by (rule st_a_after) (simp add: K_def)
  have w: "writeEnvelope pw origfn iv rbytes payload = Some env"
    using assms(1,2) by (simp add: writeEnvelope_eq env_def L_def rest_def)
  have R: "WrapReader env pw =
     Inr (if 0 < L
          then (Some (after K n, crypt (after K n) (drop n rest)),
                string_of_bytes (take n rest), None)
          else (Some (K, crypt K rest), [], None))"
    unfolding env_def
    using assms(1,2) nle
    by (subst WrapReader_v2_bytes)
       (simp_all add: sealIV_first K_def [symmetric] uL rest_def)
  have "take n rest = bytes_of_string (take n origfn)"
    using nle by (simp add: rest_def bytes_of_string_def take_map)
  then have tk: "string_of_bytes (take n rest) = take n origfn"
    by simp
  have dr: "drop n rest = bytes_of_string (drop n origfn) @ payload"
    using nle by (simp add: rest_def bytes_of_string_def drop_map)
  have "readEnvelope env pw = Some (take n origfn, bytes_of_string (drop n origfn) @ payload)"
  proof (cases "0 < L")
    case True
    then show ?thesis
      using aK [of n]
      by (simp add: readEnvelope_def R StreamReader_ReadAll_def XORKeyStream_eq tk dr)
  next
    case False
    with pos have "n = 0" by simp
    with False show ?thesis
      using aK [of 0]
      by (simp add: readEnvelope_def R StreamReader_ReadAll_def XORKeyStream_eq rest_def)
  qed
  with w show ?thesis by blast
qed

lemma readV1Header_run:
  assumes "13 \<le> length src"
  shows "readV1Header src pw =
     Inr (let K = after (newStream pw (take 4 src) 5000) 9;
              h = v1_encheader src pw;
              L = unat (h ! 8);
              rest = drop 13 src
          in if Sum 32 (take 4 h) \<noteq> take 4 (drop 4 h)
             then (Some (K, rest), [], Some (Errorf ''Bad password or corrupted file!''))
             else if 0 < h ! 8
             then (if length rest < L
                   then (Some (after K (length rest), []), [],
                         Some (if rest = [] then EOF else ErrUnexpectedEOF))
                   else (Some (after K L, drop L rest),
                         string_of_bytes (crypt K (take L rest)), None))
             else (Some (K, rest), [], None))"
proof -
  have m: "min 9 (length src - 4) = 9"
    using assms by simp
  show ?thesis
    unfolding readV1Header_def Let_def
    using assms
    by (auto simp: io_ReadFull_def pbind_def StreamReader_ReadFull_eq m
        v1_encheader_def [symmetric] after_after add.commute add.left_commute min_def)
qed

lemma v1_bytes_fields:
  fixes pw :: string and iv plain :: "byte list"
  assumes "length iv = 4" and "9 \<le> length plain"
  defines "src \<equiv> v1_bytes pw iv plain"
  shows "src \<noteq> []" and "src ! 0 = 1" and "13 \<le> length (drop 1 src)"
    and "v1_encheader (drop 1 src) pw = take 9 plain"
proof -
  have src: "src = 1 # iv @ crypt (newStream pw iv 5000) plain"
    by (simp add: src_def v1_bytes_def)
  show "src \<noteq> []" "src ! 0 = 1" "13 \<le> length (drop 1 src)"
    using assms(1,2) by (simp_all add: src)
  show "v1_encheader (drop 1 src) pw = take 9 plain"
    using assms(1) by (simp add: v1_encheader_def src take_crypt [symmetric])
qed

lemma map_succ_neq:
  fixes xs :: "byte list"
  assumes "xs \<noteq> []"
  shows "map (\<lambda>b. b + 1) xs \<noteq> xs"
proof
  assume "map (\<lambda>b. b + 1) xs = xs"
  then have "map (\<lambda>b. b + 1) xs ! 0 = xs ! 0" by simp
  with assms show False by (cases xs) simp_all
qed

section \<open>The header that WrapWriter emits\<close>

text \<open>
  C8: for every password and filename, and every four bytes \<open>iv\<close> and \<open>rbytes\<close> from the
  random source, \<open>WrapWriter\<close> makes five writes on the sink, in this order: the four
  bytes of the encrypted IV as they are, not through the stream; through the stream the four
  bytes \<open>rbytes\<close>; after \<open>rbytes[3]\<close> discarded keystream bytes the version byte 2; the
  four bytes of \<open>sum(32, rbytes)\<close>; and one length byte followed by the bytes of the
  filename. No error is returned, and the writer continues the keystream where the header
  ended.
\<close>

theorem WrapWriter_header_layout:
  assumes "length iv = 4" and "length rbytes = 4"
  shows "WrapWriter log_Write [] pw origfn (Inr iv) (Inr rbytes) =
     (let encIV = fst (sealIV pw iv);
          Q = bodyKey pw (snd (sealIV pw iv));
          r = unat (rbytes ! 3)
      in Inr ([encIV,
               crypt Q rbytes,
               crypt (after Q (4 + r)) [2],
               crypt (after Q (4 + r + 1)) (Sum 32 rbytes),
               crypt (after Q (4 + r + 1 + 4)) (of_nat (length origfn) # bytes_of_string origfn)],
              Some (after Q (4 + r + 1 + 4 + (1 + length origfn))), None))
     \<and> length (fst (sealIV pw iv)) = 4 \<and> length (Sum 32 rbytes) = 4"
  unfolding WrapWriter_run [OF assms]
  using assms(1)
  by (simp add: Let_def log_Write_def headerChunks_def writerState_def errs_First_def
      add.commute add.left_commute)

theorem WrapWriter_header_layout_witness:
  "WrapWriter log_Write [] ''pw'' ''f'' (Inr [0, 1, 2, 3]) (Inr [4, 5, 6, 7]) =
     (let encIV = fst (sealIV ''pw'' [0, 1, 2, 3]);
          Q = bodyKey ''pw'' (snd (sealIV ''pw'' [0, 1, 2, 3]))
      in Inr ([encIV,
               crypt Q [4, 5, 6, 7],
               crypt (after Q 11) [2],
               crypt (after Q 12) (Sum 32 [4, 5, 6, 7]),
               crypt (after Q 16) [1, 102]],
              Some (after Q 18), None))"
proof -
  have h: "length [0, 1, 2, 3 :: byte] = 4" "length [4, 5, 6, 7 :: byte] = 4"
    by simp_all
  show ?thesis
    using WrapWriter_header_layout [OF h, of "''pw''" "''f''"]
    by (simp add: Let_def bytes_of_string_def byte_of_char_def)
qed

text \<open>
  C10: \<open>WrapWriter\<close> drops the result of writing the encrypted IV. On a sink whose first
  write fails and writes nothing, it still returns a writer and no error, and the sink holds
  the header without its first four bytes. For every sink the error returned is made of the
  errors of the four writes through the stream only, and an error of the random source is
  returned as it is.
\<close>

theorem WrapWriter_ignores_iv_write:
  assumes "length iv = 4" and "length rbytes = 4"
  shows "failFirst_Write (0, []) (fst (sealIV pw iv)) = ((1, []), Some (IOError ''write failed''))
     \<and> WrapWriter failFirst_Write (0, []) pw origfn (Inr iv) (Inr rbytes) =
         Inr ((5, concat (tl (headerChunks pw origfn iv rbytes))),
              Some (writerState pw origfn iv rbytes), None)
     \<and> (\<exists>sink' S.
          WrapWriter wr sink pw origfn (Inr iv) (Inr rbytes) =
            (let cs = headerChunks pw origfn iv rbytes;
                 w0 = wr sink (cs ! 0);
                 w1 = wr (fst w0) (cs ! 1);
                 w2 = wr (fst w1) (cs ! 2);
                 w3 = wr (fst w2) (cs ! 3);
                 w4 = wr (fst w3) (cs ! 4)
             in Inr (sink', Some S,
                     errs_First ''Writing encryption header'' [snd w1, snd w2, snd w3, snd w4])))
     \<and> WrapWriter wr sink pw origfn (Inl e) rnd2 = Inr (sink, None, Some e)
     \<and> WrapWriter wr sink pw origfn (Inr iv) (Inl e) =
         Inr (fst (wr sink (fst (sealIV pw iv))), None, Some e)"
proof (intro conjI)
  show "failFirst_Write (0, []) (fst (sealIV pw iv)) = ((1, []), Some (IOError ''write failed''))"
    by (simp add: failFirst_Write_def)
  show "WrapWriter failFirst_Write (0, []) pw origfn (Inr iv) (Inr rbytes) =
         Inr ((5, concat (tl (headerChunks pw origfn iv rbytes))),
              Some (writerState pw origfn iv rbytes), None)"
    unfolding WrapWriter_run [OF assms]
    by (simp add: Let_def failFirst_Write_def headerChunks_def errs_First_def)
  show "\<exists>sink' S.
          WrapWriter wr sink pw origfn (Inr iv) (Inr rbytes) =
            (let cs = headerChunks pw origfn iv rbytes;
                 w0 = wr sink (cs ! 0);
                 w1 = wr (fst w0) (cs ! 1);
                 w2 = wr (fst w1) (cs ! 2);
                 w3 = wr (fst w2) (cs ! 3);
                 w4 = wr (fst w3) (cs ! 4)
             in Inr (sink', Some S,
                     errs_First ''Writing encryption header'' [snd w1, snd w2, snd w3, snd w4]))"
    unfolding WrapWriter_run [OF assms] by (simp add: Let_def)
  show "WrapWriter wr sink pw origfn (Inl e) rnd2 = Inr (sink, None, Some e)"
    by (rule WrapWriter_rnd1)
  show "WrapWriter wr sink pw origfn (Inr iv) (Inl e) =
         Inr (fst (wr sink (fst (sealIV pw iv))), None, Some e)"
    by (rule WrapWriter_rnd2 [OF assms(1)])
qed

theorem WrapWriter_ignores_iv_write_witness:
  "WrapWriter failFirst_Write (0, []) ''pw'' ''f'' (Inr [0, 1, 2, 3]) (Inr [4, 5, 6, 7]) =
     Inr ((5, concat (tl (headerChunks ''pw'' ''f'' [0, 1, 2, 3] [4, 5, 6, 7]))),
          Some (writerState ''pw'' ''f'' [0, 1, 2, 3] [4, 5, 6, 7]), None)"
proof -
  have h: "length [0, 1, 2, 3 :: byte] = 4" "length [4, 5, 6, 7 :: byte] = 4"
    by simp_all
  show ?thesis
    by (rule conjunct1 [OF conjunct2
          [OF WrapWriter_ignores_iv_write [OF h, of "''pw''" "''f''" failFirst_Write "(0, [])"]]])
qed

text \<open>
  C2: for every password, filename and pair of four-byte outputs of the random source, the
  header \<open>WrapWriter\<close> writes is not empty and its first byte is not 1; so whatever is
  written after it, and whatever the password, \<open>WrapReader\<close> on these bytes goes to
  \<open>readHeader\<close> and never to \<open>readV1Header\<close>.
\<close>

theorem envelope_never_v1:
  assumes "length iv = 4" and "length rbytes = 4"
  shows "\<exists>hdr S.
     WrapWriter buffer_Write [] pw origfn (Inr iv) (Inr rbytes) = Inr (hdr, Some S, None)
     \<and> hdr \<noteq> [] \<and> hdr ! 0 \<noteq> 1
     \<and> (\<forall>body pw'. WrapReader (hdr @ body) pw' =
           readHeader (drop 1 (hdr @ body)) ((hdr @ body) ! 0) pw')"
proof -
  define hdr where "hdr = concat (headerChunks pw origfn iv rbytes)"
  have W: "WrapWriter buffer_Write [] pw origfn (Inr iv) (Inr rbytes) =
             Inr (hdr, Some (writerState pw origfn iv rbytes), None)"
    unfolding WrapWriter_run [OF assms]
    by (simp add: Let_def buffer_Write_def headerChunks_def errs_First_def hdr_def)
  have ne: "fst (sealIV pw iv) \<noteq> []"
  proof
    assume "fst (sealIV pw iv) = []"
    then have "length (fst (sealIV pw iv)) = 0" by (simp only: list.size)
    with assms(1) show False by simp
  qed
  have hd: "hdr \<noteq> []" "hdr ! 0 = fst (sealIV pw iv) ! 0"
    using ne assms(1) by (simp_all add: hdr_def headerChunks_def Let_def nth_append)
  have first: "hdr ! 0 \<noteq> 1"
    using sealIV_first [of iv pw] assms(1) hd(2) by simp
  have "WrapReader (hdr @ body) pw' = readHeader (drop 1 (hdr @ body)) ((hdr @ body) ! 0) pw'"
    for body pw'
    using hd(1) first by (simp add: WrapReader_dispatch nth_append)
  with W hd(1) first show ?thesis by blast
qed

theorem envelope_never_v1_witness:
  "\<exists>hdr S.
     WrapWriter buffer_Write [] ''pw'' ''f'' (Inr [0, 1, 2, 3]) (Inr [4, 5, 6, 7]) =
       Inr (hdr, Some S, None)
     \<and> hdr \<noteq> [] \<and> hdr ! 0 \<noteq> 1
     \<and> WrapReader (hdr @ [104, 105]) ''pw'' =
         readHeader (drop 1 (hdr @ [104, 105])) ((hdr @ [104, 105]) ! 0) ''pw''"
proof -
  have h: "length [0, 1, 2, 3 :: byte] = 4" "length [4, 5, 6, 7 :: byte] = 4"
    by simp_all
  show ?thesis
    using envelope_never_v1 [OF h, of "''pw''" "''f''"] by blast
qed

lemma WrapWriter_buffer:
  assumes "length iv = 4" and "length rbytes = 4"
  shows "WrapWriter buffer_Write [] pw origfn (Inr iv) (Inr rbytes) =
           Inr (concat (headerChunks pw origfn iv rbytes),
                Some (writerState pw origfn iv rbytes), None)"
  unfolding WrapWriter_run [OF assms]
  by (simp add: Let_def buffer_Write_def headerChunks_def errs_First_def)

lemma take4_header:
  "length iv = 4 \<Longrightarrow> take 4 (concat (headerChunks pw origfn iv rbytes)) = fst (sealIV pw iv)"
  by (simp add: headerChunks_def Let_def)

lemma v2_iv_take4:
  assumes "4 \<le> length src"
  shows "v2_iv (drop 1 src) (src ! 0) pw = crypt (keyPrelude pw) (take 4 src)"
proof -
  have "src ! 0 # take 3 (drop 1 src) = take 4 src"
    using assms
    by (cases src) (simp_all add: numeral_eq_Suc)
  then show ?thesis by (simp add: v2_iv_def)
qed

text \<open>
  What \<open>readHeader\<close> returns on a header that \<open>WrapWriter\<close> wrote into a buffer,
  whatever bytes follow it: the state is the one rehashed with the IV the writer went on
  with, advanced past the header, and the source is what follows the filename bytes the
  length byte announces.
\<close>

lemma header_body_v2_bytes:
  assumes "length iv = 4" and "length rbytes = 4"
  shows "concat (headerChunks pw origfn iv rbytes) @ body =
     v2_bytes pw (fst (sealIV pw iv)) rbytes
       (2 # Sum 32 rbytes @ of_nat (length origfn) # bytes_of_string origfn
          @ crypt (writerState pw origfn iv rbytes) body)"
  using assms(1)
  by (simp add: v2_bytes_def headerChunks_def writerState_def Let_def bodyKey_sealIV
      crypt_header after_after add.commute add.left_commute)

lemma readHeader_on_header:
  fixes pw origfn :: string and iv rbytes body :: "byte list"
  assumes "length iv = 4" and "length rbytes = 4"
  defines "x \<equiv> concat (headerChunks pw origfn iv rbytes) @ body"
    and "n \<equiv> length origfn mod 256"
  shows "readHeader (drop 1 x) (x ! 0) pw =
     Inr (Some (after (bodyKey pw (snd (sealIV pw iv))) (10 + unat (rbytes ! 3) + n),
                drop (14 + n) x),
          take n origfn, None)"
proof -
  define L :: byte where "L = of_nat (length origfn)"
  define h where "h = Sum 32 rbytes"
  define rest where
    "rest = bytes_of_string origfn @ crypt (writerState pw origfn iv rbytes) body"
  define plain where "plain = 2 # h @ L # rest"
  define K where "K = after (bodyKey pw (snd (sealIV pw iv))) (10 + unat (rbytes ! 3))"
  have x: "x = v2_bytes pw (fst (sealIV pw iv)) rbytes plain"
    unfolding x_def plain_def h_def L_def rest_def
    by (rule header_body_v2_bytes [OF assms(1,2)])
  have l4: "length (fst (sealIV pw iv)) = 4"
    using assms(1) by simp
  have lh: "length h = 4" by (simp add: h_def)
  then obtain h0 h1 h2 h3 where hh: "h = [h0, h1, h2, h3]"
    by (auto simp: length_Suc_conv numeral_eq_Suc)
  have lp: "6 \<le> length plain" "length plain = 6 + length rest"
    by (simp_all add: plain_def hh)
  note f = v2_bytes_fields [OF l4 assms(2) lp(1), of pw, folded x]
  have bk: "bodyKey pw (crypt (keyPrelude pw) (fst (sealIV pw iv))) = bodyKey pw (snd (sealIV pw iv))"
    using assms(1) by (simp add: bodyKey_sealIV)
  have iv': "v2_iv (drop 1 x) (x ! 0) pw = snd (sealIV pw iv)"
    using f(1) assms(1) by (simp add: sealIV_decrypt)
  have rem: "v2_remaining (drop 1 x) (x ! 0) pw = 2 # h @ [L]"
    unfolding f(3) by (simp add: plain_def hh)
  have rem': "(2 # h @ [L]) ! 0 = 2" "take 4 (drop 1 (2 # h @ [L])) = h" "(2 # h @ [L]) ! 5 = L"
    by (simp_all add: hh)
  have d13: "drop 13 (drop 1 x) = crypt K rest"
    using f(4) by (simp add: K_def plain_def hh bk)
  have l13: "13 \<le> length (drop 1 x)"
    using f(5) lp(2) by simp
  have uL: "unat L = n"
    by (simp add: L_def n_def unat_of_nat)
  have nle: "n \<le> length origfn"
    by (simp add: n_def)
  have pos: "0 < L \<longleftrightarrow> 0 < n"
    using uL by (simp add: word_gt_0 unat_eq_0 [symmetric])
  have nrest: "\<not> length (crypt K rest) < n"
    using nle by (simp add: rest_def)
  have fn: "string_of_bytes (crypt K (take n (crypt K rest))) = take n origfn"
  proof -
    have "take n rest = bytes_of_string (take n origfn)"
      using nle by (simp add: rest_def bytes_of_string_def take_map)
    then show ?thesis by (simp add: take_crypt)
  qed
  have dd: "drop n (drop 13 (drop 1 x)) = drop (14 + n) x"
    by (simp add: add.commute)
  have run: "readHeader (drop 1 x) (x ! 0) pw =
     Inr (if 0 < L
          then (Some (after K n, drop n (drop 13 (drop 1 x))), take n origfn, None)
          else (Some (K, drop 13 (drop 1 x)), [], None))"
    unfolding readHeader_run [OF l13] Let_def iv' f(2) rem rem' h_def [symmetric] uL
      K_def [symmetric]
    unfolding d13 using nrest fn by simp
  show ?thesis
  proof (cases "0 < L")
    case True
    then show ?thesis
      unfolding run dd by (simp add: K_def after_after add.assoc)
  next
    case False
    with pos have n0: "n = 0" by simp
    from False show ?thesis
      unfolding run using dd by (simp add: n0 K_def)
  qed
qed

section \<open>The repair of an encrypted IV that begins with 1\<close>

text \<open>
  C3: whenever the writer's first XOR of the IV gives an encrypted IV with first byte 1, the
  four bytes it writes are that encrypted IV with the first byte replaced by
  \<open>encIV[0] XOR iv[0] XOR (iv[0] + 1)\<close>, and the reader's XOR of these four bytes, from
  the same state, gives the IV with its first byte incremented modulo 256 and its other
  bytes unchanged, and leaves the same state. \<open>readHeader\<close> itself, on the header
  followed by any bytes, passes both checks and returns the state that \<open>rehashKey\<close> makes
  with this incremented IV, advanced past the header; the writer's state comes from the
  rehash with the same IV. \<open>WrapReader\<close> reaches \<open>readHeader\<close> on these bytes.
\<close>

theorem antiV1_reader_recovers_iv:
  assumes "length iv = 4" and "length rbytes = 4"
    and "XORKeyStream (keyPrelude pw) (replicate 4 0) iv = Inr (S1, encIV)"
    and "encIV ! 0 = 1"
    and "WrapWriter buffer_Write [] pw origfn (Inr iv) (Inr rbytes) = Inr (hdr, w, e)"
  shows "take 4 hdr = encIV[0 := encIV ! 0 XOR iv ! 0 XOR (iv ! 0 + 1)]
     \<and> XORKeyStream (keyPrelude pw) (take 4 hdr) (take 4 hdr) = Inr (S1, iv[0 := iv ! 0 + 1])
     \<and> v2_iv (drop 1 hdr) (hdr ! 0) pw = iv[0 := iv ! 0 + 1]
     \<and> w = Some (after (bodyKey pw (iv[0 := iv ! 0 + 1]))
                   (10 + unat (rbytes ! 3) + length origfn))
     \<and> (\<forall>body.
           readHeader (drop 1 (hdr @ body)) ((hdr @ body) ! 0) pw =
             Inr (Some (after (bodyKey pw (iv[0 := iv ! 0 + 1]))
                          (10 + unat (rbytes ! 3) + length origfn mod 256),
                        drop (14 + length origfn mod 256) (hdr @ body)),
                  take (length origfn mod 256) origfn, None))
     \<and> (\<forall>body.
           WrapReader (hdr @ body) pw =
             readHeader (drop 1 (hdr @ body)) ((hdr @ body) ! 0) pw)"
proof -
  have X: "XORKeyStream (keyPrelude pw) (replicate 4 0) iv =
             Inr (after (keyPrelude pw) 4, crypt (keyPrelude pw) iv)"
    using assms(1) XORKeyStream_eq [of "replicate 4 0" iv "keyPrelude pw"] by simp
  with assms(3) have S1: "S1 = after (keyPrelude pw) 4" and encIV: "encIV = crypt (keyPrelude pw) iv"
    by simp_all
  have seal: "sealIV pw iv = (encIV[0 := encIV ! 0 XOR iv ! 0 XOR (iv ! 0 + 1)], iv[0 := iv ! 0 + 1])"
    using assms(4) by (simp add: sealIV_def antiV1_def encIV)
  have hdr: "hdr = concat (headerChunks pw origfn iv rbytes)"
    and w: "w = Some (writerState pw origfn iv rbytes)"
    using assms(5) by (simp_all add: WrapWriter_buffer [OF assms(1,2)])
  have t4: "take 4 hdr = fst (sealIV pw iv)"
    using assms(1) by (simp only: hdr take4_header)
  have l4: "length (take 4 hdr) = 4"
    using assms(1) by (simp only: t4 length_sealIV)
  then have len: "4 \<le> length hdr" by simp
  have dec: "crypt (keyPrelude pw) (take 4 hdr) = iv[0 := iv ! 0 + 1]"
    using assms(1) sealIV_decrypt [of iv pw] by (simp add: t4 seal)
  have "XORKeyStream (keyPrelude pw) (take 4 hdr) (take 4 hdr) =
          Inr (after (keyPrelude pw) (length (take 4 hdr)), crypt (keyPrelude pw) (take 4 hdr))"
    using l4 by (intro XORKeyStream_eq) simp_all
  then have "XORKeyStream (keyPrelude pw) (take 4 hdr) (take 4 hdr) = Inr (S1, iv[0 := iv ! 0 + 1])"
    by (simp only: l4 dec S1)
  moreover have "take 4 hdr = encIV[0 := encIV ! 0 XOR iv ! 0 XOR (iv ! 0 + 1)]"
    by (simp add: t4 seal)
  moreover have "v2_iv (drop 1 hdr) (hdr ! 0) pw = iv[0 := iv ! 0 + 1]"
    by (simp only: v2_iv_take4 [OF len] dec)
  moreover have "w = Some (after (bodyKey pw (iv[0 := iv ! 0 + 1]))
                   (10 + unat (rbytes ! 3) + length origfn))"
    by (simp add: w writerState_def seal)
  moreover have "readHeader (drop 1 (hdr @ body)) ((hdr @ body) ! 0) pw =
             Inr (Some (after (bodyKey pw (iv[0 := iv ! 0 + 1]))
                          (10 + unat (rbytes ! 3) + length origfn mod 256),
                        drop (14 + length origfn mod 256) (hdr @ body)),
                  take (length origfn mod 256) origfn, None)" for body
    using readHeader_on_header [OF assms(1,2), of pw origfn body]
    by (simp only: hdr seal snd_conv)
  moreover have "WrapReader (hdr @ body) pw =
             readHeader (drop 1 (hdr @ body)) ((hdr @ body) ! 0) pw" for body
  proof -
    have ne: "hdr \<noteq> []" using len by auto
    have "hdr ! 0 = take 4 hdr ! 0" by simp
    then have "hdr ! 0 \<noteq> 1"
      using sealIV_first [of iv pw] assms(1) by (simp only: t4) simp
    with ne show ?thesis
      by (simp add: WrapReader_dispatch nth_append)
  qed
  ultimately show ?thesis by blast
qed

lemma firingIV_fires:
  "length (firingIV pw) = 4" "crypt (keyPrelude pw) (firingIV pw) ! 0 = 1"
proof -
  show len: "length (firingIV pw) = 4"
    by (simp add: firingIV_def)
  have "crypt (keyPrelude pw) (firingIV pw) ! 0 =
          firingIV pw ! 0 XOR keystream (keyPrelude pw) 4 ! 0"
    using crypt_nth [of 0 "firingIV pw" "keyPrelude pw"] by (simp only: len)
  also have "\<dots> = 1"
    by (simp add: firingIV_def xor.assoc xor.left_commute)
  finally show "crypt (keyPrelude pw) (firingIV pw) ! 0 = 1" .
qed

theorem antiV1_reader_recovers_iv_witness:
  "crypt (keyPrelude ''pw'') (firingIV ''pw'') ! 0 = 1
   \<and> XORKeyStream (keyPrelude ''pw'')
        (take 4 (concat (headerChunks ''pw'' ''f'' (firingIV ''pw'') [4, 5, 6, 7])))
        (take 4 (concat (headerChunks ''pw'' ''f'' (firingIV ''pw'') [4, 5, 6, 7]))) =
      Inr (after (keyPrelude ''pw'') 4, (firingIV ''pw'')[0 := firingIV ''pw'' ! 0 + 1])
   \<and> readHeader
        (drop 1 (concat (headerChunks ''pw'' ''f'' (firingIV ''pw'') [4, 5, 6, 7]) @ [104, 105]))
        ((concat (headerChunks ''pw'' ''f'' (firingIV ''pw'') [4, 5, 6, 7]) @ [104, 105]) ! 0)
        ''pw'' =
      Inr (Some (after (bodyKey ''pw'' ((firingIV ''pw'')[0 := firingIV ''pw'' ! 0 + 1])) 18,
                 drop 15 (concat (headerChunks ''pw'' ''f'' (firingIV ''pw'') [4, 5, 6, 7])
                            @ [104, 105])),
           ''f'', None)"
proof -
  have h1: "length (firingIV ''pw'') = 4" and h2: "length [4, 5, 6, 7 :: byte] = 4"
    by (simp_all add: firingIV_fires)
  have h3: "XORKeyStream (keyPrelude ''pw'') (replicate 4 0) (firingIV ''pw'') =
              Inr (after (keyPrelude ''pw'') 4, crypt (keyPrelude ''pw'') (firingIV ''pw''))"
    using XORKeyStream_eq [of "replicate 4 0" "firingIV ''pw''" "keyPrelude ''pw''"]
    by (simp add: firingIV_fires)
  have h4: "crypt (keyPrelude ''pw'') (firingIV ''pw'') ! 0 = 1"
    by (rule firingIV_fires)
  note h5 = WrapWriter_buffer [OF h1 h2, of "''pw''" "''f''"]
  note th = antiV1_reader_recovers_iv [OF h1 h2 h3 h4 h5]
  have n: "10 + unat ([4, 5, 6, 7 :: byte] ! 3) + length ''f'' mod 256 = 18"
    "14 + length ''f'' mod 256 = 15" "take (length ''f'' mod 256) ''f'' = ''f''"
    by simp_all
  have r: "readHeader
        (drop 1 (concat (headerChunks ''pw'' ''f'' (firingIV ''pw'') [4, 5, 6, 7]) @ [104, 105]))
        ((concat (headerChunks ''pw'' ''f'' (firingIV ''pw'') [4, 5, 6, 7]) @ [104, 105]) ! 0)
        ''pw'' =
      Inr (Some (after (bodyKey ''pw'' ((firingIV ''pw'')[0 := firingIV ''pw'' ! 0 + 1])) 18,
                 drop 15 (concat (headerChunks ''pw'' ''f'' (firingIV ''pw'') [4, 5, 6, 7])
                            @ [104, 105])),
           ''f'', None)"
    using th [THEN conjunct2, THEN conjunct2, THEN conjunct2, THEN conjunct2, THEN conjunct1,
        THEN spec, of "[104, 105]"]
    unfolding n .
  from th [THEN conjunct2, THEN conjunct1] h4 r show ?thesis
    by (intro conjI)
qed

section \<open>Writing an envelope and reading it back\<close>

text \<open>
  C1, as amended: for every password, every payload, every filename shorter than 256 bytes
  and every four bytes \<open>iv\<close> and \<open>rbytes\<close> that the random source supplies during
  writing, writing an envelope with \<open>WrapWriter\<close> and reading the resulting bytes with
  \<open>WrapReader\<close> under the same password returns the original filename, and the returned
  reader delivers the original payload.
\<close>

theorem envelope_roundtrip:
  assumes "length iv = 4" and "length rbytes = 4" and "length origfn < 256"
  shows "\<exists>env. writeEnvelope pw origfn iv rbytes payload = Some env
           \<and> readEnvelope env pw = Some (origfn, payload)"
  using readEnvelope_writeEnvelope [OF assms(1,2), of pw origfn payload] assms(3)
  by (simp add: bytes_of_string_def)

theorem envelope_roundtrip_witness:
  "\<exists>env. writeEnvelope ''pw'' ''f'' [0, 1, 2, 3] [4, 5, 6, 7] (bytes_of_string ''hello'') = Some env
     \<and> readEnvelope env ''pw'' = Some (''f'', bytes_of_string ''hello'')"
proof -
  have h: "length [0, 1, 2, 3 :: byte] = 4" "length [4, 5, 6, 7 :: byte] = 4"
    "length ''f'' < 256"
    by simp_all
  show ?thesis
    by (rule envelope_roundtrip [OF h])
qed

text \<open>
  C9: the length byte \<open>WrapWriter\<close> stores is the length of the filename modulo 256, and
  all the bytes of the filename are written after it. So for every filename of 256 bytes or
  more the stored length is smaller than the filename; \<open>WrapReader\<close> then returns only the
  first \<open>length mod 256\<close> bytes as the filename, which is not the original one, and the
  bytes left over come out of the returned reader ahead of the payload.
\<close>

theorem long_filename_length_wraps:
  assumes "length iv = 4" and "length rbytes = 4" and "256 \<le> length origfn"
  shows "(\<exists>c0 c1 c2 c3 K S.
            WrapWriter log_Write [] pw origfn (Inr iv) (Inr rbytes) =
              Inr ([c0, c1, c2, c3,
                    crypt K ((of_nat (length origfn) :: byte) # bytes_of_string origfn)],
                   Some S, None))
     \<and> unat (of_nat (length origfn) :: byte) = length origfn mod 256
     \<and> length origfn mod 256 < length origfn
     \<and> (\<exists>env. writeEnvelope pw origfn iv rbytes payload = Some env
           \<and> readEnvelope env pw =
               Some (take (length origfn mod 256) origfn,
                     bytes_of_string (drop (length origfn mod 256) origfn) @ payload))
     \<and> take (length origfn mod 256) origfn \<noteq> origfn
     \<and> drop (length origfn mod 256) origfn \<noteq> []"
proof -
  have lt: "length origfn mod 256 < length origfn"
    using assms(3) by (simp add: less_le_trans [OF mod_less_divisor])
  have "WrapWriter log_Write [] pw origfn (Inr iv) (Inr rbytes) =
          Inr (headerChunks pw origfn iv rbytes, Some (writerState pw origfn iv rbytes), None)"
    unfolding WrapWriter_run [OF assms(1,2)]
    by (simp add: Let_def log_Write_def headerChunks_def errs_First_def)
  then have "\<exists>c0 c1 c2 c3 K S.
            WrapWriter log_Write [] pw origfn (Inr iv) (Inr rbytes) =
              Inr ([c0, c1, c2, c3,
                    crypt K ((of_nat (length origfn) :: byte) # bytes_of_string origfn)],
                   Some S, None)"
    by (simp add: headerChunks_def Let_def) blast
  moreover have "unat (of_nat (length origfn) :: byte) = length origfn mod 256"
    by (simp add: unat_of_nat)
  moreover have "take (length origfn mod 256) origfn \<noteq> origfn"
  proof
    assume "take (length origfn mod 256) origfn = origfn"
    then have "length (take (length origfn mod 256) origfn) = length origfn" by simp
    with lt show False by simp
  qed
  moreover have "drop (length origfn mod 256) origfn \<noteq> []"
    using lt by simp
  ultimately show ?thesis
    using readEnvelope_writeEnvelope [OF assms(1,2), of pw origfn payload] lt by blast
qed

theorem long_filename_length_wraps_witness:
  "\<exists>env. writeEnvelope ''pw'' (replicate 300 CHR ''a'') [0, 1, 2, 3] [4, 5, 6, 7] [104, 105] = Some env
     \<and> readEnvelope env ''pw'' =
         Some (replicate 44 CHR ''a'', bytes_of_string (replicate 256 CHR ''a'') @ [104, 105])"
proof -
  have h: "length [0, 1, 2, 3 :: byte] = 4" "length [4, 5, 6, 7 :: byte] = 4"
    "256 \<le> length (replicate 300 CHR ''a'')"
    by simp_all
  have m: "length (replicate 300 CHR ''a'') mod 256 = 44"
    by simp
  have t: "take 44 (replicate 300 CHR ''a'') = replicate 44 CHR ''a''"
    "drop 44 (replicate 300 CHR ''a'') = replicate 256 CHR ''a''"
    by simp_all
  note w = long_filename_length_wraps [OF h, of "''pw''" "[104, 105]"]
  show ?thesis
    using w [THEN conjunct2, THEN conjunct2, THEN conjunct2, THEN conjunct1]
    unfolding m t .
qed

text \<open>
  C1 as stated fails on a filename of 256 bytes: at the password \<open>pw\<close>, a filename of
  256 letters \<open>a\<close>, the IV \<open>0, 1, 2, 3\<close>, \<open>rbytes = 4, 5, 6, 7\<close> and the payload
  \<open>hello\<close>, the envelope is written without error, and reading it under the same
  password returns the empty filename and a payload that begins with the 256 bytes of the
  filename, not the original filename and payload.
\<close>

theorem roundtrip_loses_long_filename:
  "\<exists>env. writeEnvelope ''pw'' (replicate 256 CHR ''a'') [0, 1, 2, 3] [4, 5, 6, 7]
             (bytes_of_string ''hello'') = Some env
     \<and> readEnvelope env ''pw'' =
         Some ([], bytes_of_string (replicate 256 CHR ''a'') @ bytes_of_string ''hello'')
     \<and> readEnvelope env ''pw'' \<noteq> Some (replicate 256 CHR ''a'', bytes_of_string ''hello'')"
proof -
  have h: "length [0, 1, 2, 3 :: byte] = 4" "length [4, 5, 6, 7 :: byte] = 4"
    by simp_all
  have m: "length (replicate 256 CHR ''a'') mod 256 = 0"
    by simp
  obtain env where
    w: "writeEnvelope ''pw'' (replicate 256 CHR ''a'') [0, 1, 2, 3] [4, 5, 6, 7]
          (bytes_of_string ''hello'') = Some env"
    and r: "readEnvelope env ''pw'' =
         Some ([], bytes_of_string (replicate 256 CHR ''a'') @ bytes_of_string ''hello'')"
    using readEnvelope_writeEnvelope [OF h, of "''pw''" "replicate 256 CHR ''a''" "bytes_of_string ''hello''"]
    unfolding m take_0 drop_0 by (elim exE conjE)
  have "readEnvelope env ''pw'' \<noteq> Some (replicate 256 CHR ''a'', bytes_of_string ''hello'')"
    unfolding r by simp
  with w r show ?thesis by (intro exI [of _ env] conjI)
qed

section \<open>The integrity checks of the readers\<close>

text \<open>
  C6, as amended: on the V2 path, with the 13 bytes of the header after the first one at
  hand, \<open>readHeader\<close> decrypts \<open>rbytes\<close>, passes over \<open>rbytes[3]\<close> keystream bytes of
  the underlying state and decrypts six more bytes (these are \<open>v2_rbytes\<close> and
  \<open>v2_remaining\<close>). It returns the error \<open>Bad pw or corrupted file!\<close> if and only if the
  first of the six is not 2 or bytes 1 to 4 differ from \<open>sum(32, rbytes)\<close>, and the
  state is then \<open>4 + rbytes[3] + 6\<close> keystream bytes past the rehashed one. When both
  checks pass, it returns no error provided the filename length in byte 5 is 0 or that many
  bytes follow; when fewer bytes follow it returns the error of the short read, \<open>io.EOF\<close>
  if none follows and \<open>io.ErrUnexpectedEOF\<close> otherwise.
\<close>

theorem readHeader_integrity_check:
  assumes "13 \<le> length src"
  shows "\<exists>rdr fn err.
     readHeader src firstByte pw = Inr (rdr, fn, err)
     \<and> (err = Some (Errorf ''Bad pw or corrupted file!'')
          \<longleftrightarrow> v2_remaining src firstByte pw ! 0 \<noteq> 2
              \<or> take 4 (drop 1 (v2_remaining src firstByte pw)) \<noteq> Sum 32 (v2_rbytes src firstByte pw))
     \<and> (v2_remaining src firstByte pw ! 0 = 2
          \<and> take 4 (drop 1 (v2_remaining src firstByte pw)) = Sum 32 (v2_rbytes src firstByte pw)
          \<longrightarrow> err = (if length src - 13 < unat (v2_remaining src firstByte pw ! 5)
                      then Some (if length src = 13 then EOF else ErrUnexpectedEOF)
                      else None))
     \<and> (err = Some (Errorf ''Bad pw or corrupted file!'')
          \<longrightarrow> rdr = Some (after (bodyKey pw (v2_iv src firstByte pw))
                            (4 + unat (v2_rbytes src firstByte pw ! 3) + 6),
                          drop 13 src))"
proof -
  have k: "4 + unat (v2_rbytes src firstByte pw ! 3) + 6 = 10 + unat (v2_rbytes src firstByte pw ! 3)"
    by simp
  show ?thesis
    unfolding readHeader_run [OF assms(1)] Let_def k
    using assms(1)
    by (auto simp: word_gt_0 unat_eq_0)
qed

lemma length4E:
  assumes "length xs = 4"
  obtains a b c d where "xs = [a, b, c, d]"
  using assms by (auto simp: length_Suc_conv numeral_eq_Suc)

lemma v2_bytes_first:
  "length encIV = 4 \<Longrightarrow> v2_bytes pw encIV rbytes plain \<noteq> []
     \<and> v2_bytes pw encIV rbytes plain ! 0 = encIV ! 0"
  by (auto simp: v2_bytes_def Let_def nth_append)

lemma truncatedEnvelope_read:
  "WrapReader truncatedEnvelope ''pw'' =
     Inr (Some (after (bodyKey ''pw'' (crypt (keyPrelude ''pw'') [0, 0, 0, 0])) 17, []), [], Some EOF)"
proof -
  have l: "length [0, 0, 0, 0 :: byte] = 4" "[0, 0, 0, 0 :: byte] ! 0 \<noteq> 1"
    "length [4, 5, 6, 7 :: byte] = 4" "length (Sum 32 [4, 5, 6, 7]) = 4"
    by simp_all
  have u: "unat ([4, 5, 6, 7 :: byte] ! 3) = 7" "unat (1 :: byte) = 1" "(0 :: byte) < 1"
    by simp_all
  show ?thesis
    unfolding truncatedEnvelope_def WrapReader_v2_bytes [OF l] u
    by simp
qed

text \<open>
  C6 as stated fails on an envelope that ends after its length byte: the version byte is 2
  and the digest is the right one, so both checks pass, and yet \<open>readHeader\<close> returns an
  error, \<open>io.EOF\<close> from reading the filename of one byte that the header announces.
\<close>

theorem readHeader_truncated_filename:
  "v2_remaining (drop 1 truncatedEnvelope) 0 ''pw'' ! 0 = 2
   \<and> take 4 (drop 1 (v2_remaining (drop 1 truncatedEnvelope) 0 ''pw'')) =
       Sum 32 (v2_rbytes (drop 1 truncatedEnvelope) 0 ''pw'')
   \<and> readHeader (drop 1 truncatedEnvelope) 0 ''pw'' =
       Inr (Some (after (bodyKey ''pw'' (crypt (keyPrelude ''pw'') [0, 0, 0, 0])) 17, []), [],
            Some EOF)"
proof -
  have l: "length [0, 0, 0, 0 :: byte] = 4" "length [4, 5, 6, 7 :: byte] = 4"
    "6 \<le> length (2 # Sum 32 [4, 5, 6, 7] @ [1 :: byte])"
    by simp_all
  have z: "truncatedEnvelope \<noteq> []" "truncatedEnvelope ! 0 = 0"
    using v2_bytes_first [OF l(1), of "''pw''"] by (simp_all add: truncatedEnvelope_def)
  note f = v2_bytes_fields [OF l, of "''pw''", folded truncatedEnvelope_def, unfolded z(2)]
  have l4: "length (Sum 32 [4, 5, 6, 7]) = 4" by simp
  define h where "h = Sum 32 [4, 5, 6, 7]"
  obtain h0 h1 h2 h3 where h: "h = [h0, h1, h2, h3]"
    using l4 unfolding h_def [symmetric] by (rule length4E)
  have r: "readHeader (drop 1 truncatedEnvelope) 0 ''pw'' = WrapReader truncatedEnvelope ''pw''"
    using z by (simp add: WrapReader_dispatch)
  have "v2_remaining (drop 1 truncatedEnvelope) 0 ''pw'' = 2 # h @ [1]"
    unfolding f(3) h_def [symmetric] by (simp add: h)
  then have "v2_remaining (drop 1 truncatedEnvelope) 0 ''pw'' ! 0 = 2"
    and "take 4 (drop 1 (v2_remaining (drop 1 truncatedEnvelope) 0 ''pw'')) = h"
    by (simp_all add: h)
  then show ?thesis
    unfolding f(2) r truncatedEnvelope_read h_def by blast
qed

lemma badV1_read:
  "WrapReader badV1 ''pw'' =
     Inr (Some (after (newStream ''pw'' [0, 0, 0, 0] 5000) 9, []), [],
          Some (Errorf ''Bad password or corrupted file!''))"
  "badV1 ! 0 = 1"
  "13 \<le> length (drop 1 badV1)"
  "Sum 32 (take 4 (v1_encheader (drop 1 badV1) ''pw'')) \<noteq>
         take 4 (drop 4 (v1_encheader (drop 1 badV1) ''pw''))"
proof -
  define h4 where "h4 = Sum 32 [4, 5, 6, 7]"
  have "length h4 = 4" by (simp add: h4_def)
  then obtain h0 h1 h2 h3 where h4: "h4 = [h0, h1, h2, h3]"
    by (rule length4E)
  define plain where "plain = [4, 5, 6, 7] @ map (\<lambda>b. b + 1) h4 @ [0]"
  have bad: "badV1 = v1_bytes ''pw'' [0, 0, 0, 0] plain"
    by (simp add: badV1_def plain_def h4_def)
  have l: "length [0, 0, 0, 0 :: byte] = 4" "9 \<le> length plain"
    by (simp_all add: plain_def h4)
  note f = v1_bytes_fields [OF l, of "''pw''", folded bad]
  show "badV1 ! 0 = 1" "13 \<le> length (drop 1 badV1)"
    by (rule f)+
  have len: "length (drop 1 badV1) = 13"
    by (simp add: bad v1_bytes_def plain_def h4)
  have t4: "take 4 (drop 1 badV1) = [0, 0, 0, 0]"
    by (simp add: bad v1_bytes_def)
  have hd: "v1_encheader (drop 1 badV1) ''pw'' = plain"
    using f(4) by (simp add: plain_def h4)
  have ne: "h4 \<noteq> map (\<lambda>b. b + 1) h4"
    using map_succ_neq [of h4] by (simp add: h4)
  have ck: "Sum 32 (take 4 plain) = h4" "take 4 (drop 4 plain) = map (\<lambda>b. b + 1) h4"
    by (simp_all add: plain_def h4_def [symmetric]) (simp add: h4)
  show "Sum 32 (take 4 (v1_encheader (drop 1 badV1) ''pw'')) \<noteq>
         take 4 (drop 4 (v1_encheader (drop 1 badV1) ''pw''))"
    unfolding hd ck by (rule ne)
  have "WrapReader badV1 ''pw'' = readV1Header (drop 1 badV1) ''pw''"
    using f(1,2) by (simp add: WrapReader_dispatch)
  also have "\<dots> = Inr (Some (after (newStream ''pw'' [0, 0, 0, 0] 5000) 9, []), [],
          Some (Errorf ''Bad password or corrupted file!''))"
    unfolding readV1Header_run [OF f(3)] Let_def hd ck t4
    using ne len by simp
  finally show "WrapReader badV1 ''pw'' =
     Inr (Some (after (newStream ''pw'' [0, 0, 0, 0] 5000) 9, []), [],
          Some (Errorf ''Bad password or corrupted file!''))" .
qed

lemma badV2_read:
  "WrapReader badV2 ''pw'' =
     Inr (Some (after (bodyKey ''pw'' (crypt (keyPrelude ''pw'') [0, 0, 0, 0])) 17, []), [],
          Some (Errorf ''Bad pw or corrupted file!''))"
  "badV2 ! 0 \<noteq> 1"
  "14 \<le> length badV2"
  "v2_remaining (drop 1 badV2) (badV2 ! 0) ''pw'' ! 0 \<noteq> 2"
proof -
  have l: "length [0, 0, 0, 0 :: byte] = 4" "[0, 0, 0, 0 :: byte] ! 0 \<noteq> 1"
    "length [4, 5, 6, 7 :: byte] = 4" "length (Sum 32 [4, 5, 6, 7]) = 4"
    by simp_all
  have u: "unat ([4, 5, 6, 7 :: byte] ! 3) = 7"
    by simp
  show "WrapReader badV2 ''pw'' =
     Inr (Some (after (bodyKey ''pw'' (crypt (keyPrelude ''pw'') [0, 0, 0, 0])) 17, []), [],
          Some (Errorf ''Bad pw or corrupted file!''))"
    unfolding badV2_def WrapReader_v2_bytes [OF l] u
    by simp
  have p: "6 \<le> length (3 # Sum 32 [4, 5, 6, 7] @ [0 :: byte])"
    by simp
  note f = v2_bytes_fields [OF l(1) l(3) p, of "''pw''", folded badV2_def]
  show "badV2 ! 0 \<noteq> 1"
    using v2_bytes_first [OF l(1), of "''pw''"] by (simp add: badV2_def)
  show "14 \<le> length badV2"
    using f(5) by simp
  show "v2_remaining (drop 1 badV2) (badV2 ! 0) ''pw'' ! 0 \<noteq> 2"
    unfolding f(3) by simp
qed

lemma badHashV2_read:
  "WrapReader badHashV2 ''pw'' =
     Inr (Some (after (bodyKey ''pw'' (crypt (keyPrelude ''pw'') [0, 0, 0, 0])) 17, []), [],
          Some (Errorf ''Bad pw or corrupted file!''))"
  "badHashV2 ! 0 \<noteq> 1"
  "14 \<le> length badHashV2"
  "take 4 (drop 1 (v2_remaining (drop 1 badHashV2) (badHashV2 ! 0) ''pw'')) \<noteq>
         Sum 32 (v2_rbytes (drop 1 badHashV2) (badHashV2 ! 0) ''pw'')"
proof -
  define h4 where "h4 = Sum 32 [4, 5, 6, 7]"
  have len4: "length h4 = 4" by (simp add: h4_def)
  then obtain h0 h1 h2 h3 where h4: "h4 = [h0, h1, h2, h3]"
    by (rule length4E)
  have ne: "map (\<lambda>b. b + 1) h4 \<noteq> h4"
    using map_succ_neq [of h4] by (simp add: h4)
  have l: "length [0, 0, 0, 0 :: byte] = 4" "[0, 0, 0, 0 :: byte] ! 0 \<noteq> 1"
    "length [4, 5, 6, 7 :: byte] = 4" "length (map (\<lambda>b. b + 1) h4) = 4"
    by (simp_all add: h4)
  have u: "unat ([4, 5, 6, 7 :: byte] ! 3) = 7"
    by simp
  have bad: "badHashV2 = v2_bytes ''pw'' [0, 0, 0, 0] [4, 5, 6, 7] (2 # map (\<lambda>b. b + 1) h4 @ [0])"
    by (simp add: badHashV2_def h4_def)
  show "WrapReader badHashV2 ''pw'' =
     Inr (Some (after (bodyKey ''pw'' (crypt (keyPrelude ''pw'') [0, 0, 0, 0])) 17, []), [],
          Some (Errorf ''Bad pw or corrupted file!''))"
  proof -
    have c: "((2 :: byte) \<noteq> 2 \<or> map (\<lambda>b. b + 1) h4 \<noteq> h4) = True"
      using ne by blast
    show ?thesis
      unfolding bad WrapReader_v2_bytes [OF l] u h4_def [symmetric] c if_True
      by simp
  qed
  have p: "6 \<le> length (2 # map (\<lambda>b. b + 1) h4 @ [0 :: byte])"
    using len4 by simp
  note f = v2_bytes_fields [OF l(1) l(3) p, of "''pw''", folded bad]
  show "badHashV2 ! 0 \<noteq> 1"
    using v2_bytes_first [OF l(1), of "''pw''"] by (simp add: bad)
  show "14 \<le> length badHashV2"
    using f(5) len4 by simp
  show "take 4 (drop 1 (v2_remaining (drop 1 badHashV2) (badHashV2 ! 0) ''pw'')) \<noteq>
         Sum 32 (v2_rbytes (drop 1 badHashV2) (badHashV2 ! 0) ''pw'')"
    unfolding f(2,3) h4_def [symmetric] using ne by (simp add: h4)
qed

theorem readHeader_integrity_check_witness:
  "13 \<le> length (drop 1 truncatedEnvelope)
   \<and> (\<exists>rdr fn. readHeader (drop 1 truncatedEnvelope) 0 ''pw'' = Inr (rdr, fn, Some EOF))
   \<and> 13 \<le> length (drop 1 badV2)
   \<and> (\<exists>fn. readHeader (drop 1 badV2) (badV2 ! 0) ''pw'' =
         Inr (Some (after (bodyKey ''pw'' (v2_iv (drop 1 badV2) (badV2 ! 0) ''pw''))
                      (4 + unat (v2_rbytes (drop 1 badV2) (badV2 ! 0) ''pw'' ! 3) + 6),
                    drop 13 (drop 1 badV2)),
              fn, Some (Errorf ''Bad pw or corrupted file!'')))"
proof -
  have l: "length [0, 0, 0, 0 :: byte] = 4" "length [4, 5, 6, 7 :: byte] = 4"
    "6 \<le> length (2 # Sum 32 [4, 5, 6, 7] @ [1 :: byte])"
    by simp_all
  have z: "truncatedEnvelope ! 0 = 0"
    using v2_bytes_first [OF l(1), of "''pw''"] by (simp add: truncatedEnvelope_def)
  note f = v2_bytes_fields [OF l, of "''pw''", folded truncatedEnvelope_def, unfolded z]
  have len: "length (drop 1 truncatedEnvelope) = 13"
    using f(5) by simp
  then have h: "13 \<le> length (drop 1 truncatedEnvelope)" by simp
  define h4 where "h4 = Sum 32 [4, 5, 6, 7]"
  have "length h4 = 4" by (simp add: h4_def)
  then obtain h0 h1 h2 h3 where h4: "h4 = [h0, h1, h2, h3]"
    by (rule length4E)
  have rem: "v2_remaining (drop 1 truncatedEnvelope) 0 ''pw'' = 2 # h4 @ [1]"
    unfolding f(3) h4_def [symmetric] by (simp add: h4)
  have c: "v2_remaining (drop 1 truncatedEnvelope) 0 ''pw'' ! 0 = 2"
    "take 4 (drop 1 (v2_remaining (drop 1 truncatedEnvelope) 0 ''pw'')) =
       Sum 32 (v2_rbytes (drop 1 truncatedEnvelope) 0 ''pw'')"
    "unat (v2_remaining (drop 1 truncatedEnvelope) 0 ''pw'' ! 5) = 1"
    unfolding rem f(2) by (simp_all add: h4 h4_def [symmetric])
  obtain rdr fn err where
    r: "readHeader (drop 1 truncatedEnvelope) 0 ''pw'' = Inr (rdr, fn, err)"
    and e: "v2_remaining (drop 1 truncatedEnvelope) 0 ''pw'' ! 0 = 2
          \<and> take 4 (drop 1 (v2_remaining (drop 1 truncatedEnvelope) 0 ''pw'')) =
              Sum 32 (v2_rbytes (drop 1 truncatedEnvelope) 0 ''pw'')
          \<longrightarrow> err = (if length (drop 1 truncatedEnvelope) - 13
                            < unat (v2_remaining (drop 1 truncatedEnvelope) 0 ''pw'' ! 5)
                      then Some (if length (drop 1 truncatedEnvelope) = 13 then EOF
                                 else ErrUnexpectedEOF)
                      else None)"
    using readHeader_integrity_check [OF h, of 0 "''pw''"] by blast
  from e c have "err = Some EOF"
    by (simp only: len c) simp
  with r have t: "\<exists>rdr fn. readHeader (drop 1 truncatedEnvelope) 0 ''pw'' = Inr (rdr, fn, Some EOF)"
    by blast
  have h2: "13 \<le> length (drop 1 badV2)"
    using badV2_read(3) by simp
  have b: "\<exists>fn. readHeader (drop 1 badV2) (badV2 ! 0) ''pw'' =
         Inr (Some (after (bodyKey ''pw'' (v2_iv (drop 1 badV2) (badV2 ! 0) ''pw''))
                      (4 + unat (v2_rbytes (drop 1 badV2) (badV2 ! 0) ''pw'' ! 3) + 6),
                    drop 13 (drop 1 badV2)),
              fn, Some (Errorf ''Bad pw or corrupted file!''))"
    using readHeader_integrity_check [OF h2, of "badV2 ! 0" "''pw''"] badV2_read(4)
    by blast
  from h t h2 b show ?thesis by (intro conjI)
qed

text \<open>
  C7, as amended: every failed integrity check surfaces as an error made by \<open>fmt.Errorf\<close>.
  A V2 version-byte mismatch and a V2 digest mismatch give the same message,
  \<open>Bad pw or corrupted file!\<close>, so the error does not tell which of the two failed. A V1
  checksum mismatch gives another message, \<open>Bad password or corrupted file!\<close>.
\<close>

theorem integrity_error_messages:
  assumes "14 \<le> length src"
  shows "(src ! 0 = 1
          \<and> Sum 32 (take 4 (v1_encheader (drop 1 src) pw)) \<noteq>
              take 4 (drop 4 (v1_encheader (drop 1 src) pw))
          \<longrightarrow> (\<exists>rdr fn. WrapReader src pw =
                  Inr (rdr, fn, Some (Errorf ''Bad password or corrupted file!''))))
     \<and> (src ! 0 \<noteq> 1 \<and> v2_remaining (drop 1 src) (src ! 0) pw ! 0 \<noteq> 2
          \<longrightarrow> (\<exists>rdr fn. WrapReader src pw =
                  Inr (rdr, fn, Some (Errorf ''Bad pw or corrupted file!''))))
     \<and> (src ! 0 \<noteq> 1
          \<and> take 4 (drop 1 (v2_remaining (drop 1 src) (src ! 0) pw)) \<noteq>
              Sum 32 (v2_rbytes (drop 1 src) (src ! 0) pw)
          \<longrightarrow> (\<exists>rdr fn. WrapReader src pw =
                  Inr (rdr, fn, Some (Errorf ''Bad pw or corrupted file!''))))"
proof -
  have ne: "src \<noteq> []" and l13: "13 \<le> length (drop 1 src)"
    using assms by auto
  show ?thesis
    unfolding WrapReader_dispatch [OF ne] readV1Header_run [OF l13] readHeader_run [OF l13] Let_def
    by simp
qed

theorem integrity_error_messages_witness:
  "(\<exists>rdr fn. WrapReader badV1 ''pw'' =
      Inr (rdr, fn, Some (Errorf ''Bad password or corrupted file!'')))
   \<and> (\<exists>rdr fn. WrapReader badV2 ''pw'' =
      Inr (rdr, fn, Some (Errorf ''Bad pw or corrupted file!'')))
   \<and> (\<exists>rdr fn. WrapReader badHashV2 ''pw'' =
      Inr (rdr, fn, Some (Errorf ''Bad pw or corrupted file!'')))"
proof -
  have l1: "14 \<le> length badV1"
    using badV1_read(3) by simp
  show ?thesis
    using integrity_error_messages [OF l1, of "''pw''"]
      integrity_error_messages [OF badV2_read(3), of "''pw''"]
      integrity_error_messages [OF badHashV2_read(3), of "''pw''"]
      badV1_read(2,4) badV2_read(2,4) badHashV2_read(2,4)
    by blast
qed

text \<open>
  C7 as stated fails on a V1 file with a wrong checksum and a V2 file with a wrong version
  byte: both are refused by an integrity check, with two different messages.
\<close>

theorem integrity_messages_differ:
  "Sum 32 (take 4 (v1_encheader (drop 1 badV1) ''pw'')) \<noteq>
     take 4 (drop 4 (v1_encheader (drop 1 badV1) ''pw''))
   \<and> WrapReader badV1 ''pw'' =
     Inr (Some (after (newStream ''pw'' [0, 0, 0, 0] 5000) 9, []), [],
          Some (Errorf ''Bad password or corrupted file!''))
   \<and> v2_remaining (drop 1 badV2) (badV2 ! 0) ''pw'' ! 0 \<noteq> 2
   \<and> WrapReader badV2 ''pw'' =
     Inr (Some (after (bodyKey ''pw'' (crypt (keyPrelude ''pw'') [0, 0, 0, 0])) 17, []), [],
          Some (Errorf ''Bad pw or corrupted file!''))
   \<and> Errorf ''Bad password or corrupted file!'' \<noteq> Errorf ''Bad pw or corrupted file!''"
  using badV1_read(1,4) badV2_read(1,4) by simp


end
